theory Spec2Isabelle
  imports Main "HOL-Library.Word"
begin

unbundle bit_operations_syntax

section \<open>Values, exceptions and the environment of pysubs.py\<close>

text \<open>
  The program is a single Python module. Its values are the values that JSON decoding
  produces (None, booleans, integers, strings, lists, dictionaries); numbers with a
  fractional part are not part of the model. A dictionary is kept as the list of its
  items, looked up with \<open>map_of\<close>.
\<close>

type_synonym byte = "8 word"
type_synonym path = string

datatype json =
    JNull
  | JBool bool
  | JInt int
  | JStr string
  | JArr "json list"
  | JObj "(string \<times> json) list"

text \<open>
  Every \<open>raise\<close> of the program and of the library calls it makes is a value of \<open>exc\<close>.
  \<open>SystemExit\<close> is the exception of \<open>sys.exit\<close>: it is not a subclass of \<open>Exception\<close>,
  so an \<open>except Exception\<close> clause lets it through. \<open>FileNotFoundError\<close> is a subclass
  of \<open>OSError\<close>; neither is a subclass of \<open>ffmpeg.Error\<close> or of
  \<open>requests.exceptions.RequestException\<close>.
\<close>

datatype exc =
    SystemExit nat
  | RecursionError
  | AttributeError
  | TypeError
  | ValueError
  | KeyError
  | StructError
  | OSError
  | FileNotFoundError
  | FfmpegError
  | RequestException

fun is_Exception :: "exc \<Rightarrow> bool" where
  "is_Exception (SystemExit c) = False"
| "is_Exception e = True"

text \<open>The calls of the \<open>logging\<close> module, one constructor for each call site.\<close>

datatype log_event =
    FoundExternal path
  | FoundEmbedded nat
  | ProbeWarning exc
  | FileTooSmall
  | HashError exc
  | ApiRequestFailed exc
  | NoValidFileId
  | RequestingLink
  | NoDownloadLink
  | Downloading
  | SavedTo path
  | DownloadFailed exc
  | SaveError exc
  | NoApiKey
  | FileNotFound path
  | Processing string
  | Skipping
  | HashGenerated json
  | FoundByHash nat
  | SearchingByFilename
  | FoundByFilename nat
  | BestMatch json
  | NoneFound
  | Finished

text \<open>The requests sent to the catalog, in the order they are issued.\<close>

datatype net_call =
    GetSubtitles "(string \<times> json) list"
  | PostDownload json
  | GetLink json

text \<open>
  What the final \<open>open(subtitle_path, "w")\<close> and \<open>f.write\<close> meet: no fault, an error
  when opening (nothing is touched), or an error after \<open>n\<close> bytes of the content have
  reached the file, which \<open>open\<close> has already created or truncated.
\<close>

datatype write_fault = NoFault | OpenFails | WriteFailsAfter nat

text \<open>
  The state that the program changes: the regular files of the file system (a path to its
  bytes), the requests issued so far and the log.
\<close>

record state =
  fs :: "path \<rightharpoonup> byte list"
  calls :: "net_call list"
  log :: "log_event list"

text \<open>
  The environment of one run, which the program only reads: the module constant
  \<open>API_KEY\<close>, whether \<open>__name__\<close> is \<open>"__main__"\<close>, the positional argument that
  \<open>argparse\<close> returns, and the answers of the outside world: whether opening a file for
  reading fails, what \<open>ffmpeg.probe\<close> returns or raises, what the three HTTP exchanges
  return or raise (the request, \<open>raise_for_status\<close> and the decoding of the body
  together), and the fault met by the final write. A text is represented by its UTF-8
  encoding, the bytes that \<open>open(..., encoding="utf-8")\<close> writes.
\<close>

record world =
  API_KEY :: "string option"
  name_is_main :: bool
  video_arg :: path
  read_fault :: "path \<Rightarrow> bool"
  probe :: "path \<Rightarrow> exc + json"
  http_search :: "(string \<times> json) list \<Rightarrow> exc + json"
  http_download :: "json \<Rightarrow> exc + json"
  http_fetch :: "json \<Rightarrow> exc + byte list"
  save_fault :: write_fault

definition logging :: "log_event \<Rightarrow> state \<Rightarrow> state" where
  "logging ev s = s\<lparr>log := log s @ [ev]\<rparr>"

definition issue :: "net_call \<Rightarrow> state \<Rightarrow> state" where
  "issue c s = s\<lparr>calls := calls s @ [c]\<rparr>"

section \<open>Fingerprinter: generate_opensubtitles_hash\<close>

text \<open>
  \<open>struct.unpack('<q', buffer)\<close>: a little-endian signed 64-bit integer, and
  \<open>struct.error\<close> when the buffer does not hold exactly 8 bytes.
\<close>

primrec le_uint :: "byte list \<Rightarrow> int" where
  "le_uint [] = 0"
| "le_uint (b # bs) = uint b + 256 * le_uint bs"

definition le_s64 :: "byte list \<Rightarrow> int" where
  "le_s64 bs = (let u = le_uint bs in if 2 ^ 63 \<le> u then u - 2 ^ 64 else u)"

definition unpack_q :: "byte list \<Rightarrow> exc + int" where
  "unpack_q buffer = (if length buffer \<noteq> 8 then Inl StructError else Inr (le_s64 buffer))"

text \<open>
  The loop \<open>for _ in range(65536 // bytesize)\<close> over the open file: \<open>f.read(bytesize)\<close>
  returns the (at most 8) bytes at the position and advances it; the accumulator is a
  Python integer, masked after each addition.
\<close>

primrec read_loop :: "nat \<Rightarrow> byte list \<Rightarrow> nat \<Rightarrow> int \<Rightarrow> exc + (int \<times> nat)" where
  "read_loop 0 dat pos hash_value = Inr (hash_value, pos)"
| "read_loop (Suc n) dat pos hash_value =
     (let buffer = take 8 (drop pos dat) in
      case unpack_q buffer of
        Inl e \<Rightarrow> Inl e
      | Inr l_value \<Rightarrow>
          read_loop n dat (pos + length buffer)
            ((hash_value + l_value) AND 0xFFFFFFFFFFFFFFFF))"

text \<open>\<open>"%016x" % hash_value\<close>: lowercase hexadecimal, padded with zeros to 16 characters.\<close>

definition hex_digit :: "nat \<Rightarrow> char" where
  "hex_digit d = ''0123456789abcdef'' ! d"

fun to_hex :: "nat \<Rightarrow> string" where
  "to_hex n = (if n < 16 then [hex_digit n] else to_hex (n div 16) @ [hex_digit (n mod 16)])"

declare to_hex.simps [simp del]

definition zfill :: "nat \<Rightarrow> string \<Rightarrow> string" where
  "zfill k s = replicate (k - length s) (CHR ''0'') @ s"

definition fmt_016x :: "int \<Rightarrow> string" where
  "fmt_016x v = (if v < 0 then CHR ''-'' # zfill 15 (to_hex (nat (- v)))
                 else zfill 16 (to_hex (nat v)))"

text \<open>
  The body of the \<open>try\<close> block (lines 60 to 86). \<open>os.path.getsize\<close> raises for a path
  that is not in the file system.
\<close>

definition hash_try :: "world \<Rightarrow> path \<Rightarrow> state \<Rightarrow> (exc + json) \<times> state" where
  "hash_try w video_path s =
     (case fs s video_path of
        None \<Rightarrow> (Inl FileNotFoundError, s)
      | Some dat \<Rightarrow>
          let filesize = length dat; hash_value = int filesize in
          if filesize < 65536 * 2 then (Inr JNull, logging FileTooSmall s)
          else if read_fault w video_path then (Inl OSError, s)
          else
            (case read_loop (65536 div 8) dat 0 hash_value of
               Inl e \<Rightarrow> (Inl e, s)
             | Inr (h1, p1) \<Rightarrow>
                 (case read_loop (65536 div 8) dat (nat (max 0 (int filesize - 65536))) h1 of
                    Inl e \<Rightarrow> (Inl e, s)
                  | Inr (h2, p2) \<Rightarrow> (Inr (JStr (fmt_016x h2)), s))))"

text \<open>The whole function: \<open>except Exception\<close> logs the error and returns None.\<close>

definition generate_opensubtitles_hash :: "world \<Rightarrow> path \<Rightarrow> state \<Rightarrow> (exc + json) \<times> state" where
  "generate_opensubtitles_hash w video_path s =
     (case hash_try w video_path s of
        (Inl e, s') \<Rightarrow>
          if is_Exception e then (Inr JNull, logging (HashError e) s') else (Inl e, s')
      | (Inr r, s') \<Rightarrow> (Inr r, s'))"

section \<open>Python operations on values\<close>

text \<open>Truth value testing, as in \<open>if not subtitles\<close> and \<open>if results\<close>.\<close>

fun truthy :: "json \<Rightarrow> bool" where
  "truthy JNull = False"
| "truthy (JBool b) = b"
| "truthy (JInt i) = (i \<noteq> 0)"
| "truthy (JStr s) = (s \<noteq> [])"
| "truthy (JArr xs) = (xs \<noteq> [])"
| "truthy (JObj kvs) = (kvs \<noteq> [])"

text \<open>\<open>d.get(k, default)\<close>: only a dictionary has the method.\<close>

fun py_get :: "json \<Rightarrow> string \<Rightarrow> json \<Rightarrow> exc + json" where
  "py_get (JObj kvs) k d = Inr (case map_of kvs k of Some v \<Rightarrow> v | None \<Rightarrow> d)"
| "py_get v k d = Inl AttributeError"

text \<open>Booleans are integers in Python: \<open>True == 1\<close>.\<close>

fun num_of :: "json \<Rightarrow> int option" where
  "num_of (JBool b) = Some (if b then 1 else 0)"
| "num_of (JInt i) = Some i"
| "num_of v = None"

text \<open>\<open>a == b\<close> on decoded JSON values.\<close>

fun py_eq :: "json \<Rightarrow> json \<Rightarrow> bool" where
  "py_eq JNull JNull = True"
| "py_eq (JStr a) (JStr b) = (a = b)"
| "py_eq (JArr xs) (JArr ys) = list_all2 py_eq xs ys"
| "py_eq (JObj a) (JObj b) =
     (length a = length b \<and>
      list_all (\<lambda>(k, v). case map_of b k of None \<Rightarrow> False | Some v' \<Rightarrow> py_eq v v') a)"
| "py_eq a b = (case (num_of a, num_of b) of (Some x, Some y) \<Rightarrow> x = y | _ \<Rightarrow> False)"

text \<open>
  \<open>a > b\<close>: numbers by value, strings and lists lexicographically, \<open>TypeError\<close> for
  every other pairing.
\<close>

fun str_gt :: "string \<Rightarrow> string \<Rightarrow> bool" where
  "str_gt [] t = False"
| "str_gt (c # cs) [] = True"
| "str_gt (c # cs) (d # ds) = (if c = d then str_gt cs ds else (of_char d :: nat) < of_char c)"

fun py_gt :: "json \<Rightarrow> json \<Rightarrow> exc + bool"
  and py_gt_list :: "json list \<Rightarrow> json list \<Rightarrow> exc + bool" where
  "py_gt (JStr a) (JStr b) = Inr (str_gt a b)"
| "py_gt (JArr xs) (JArr ys) = py_gt_list xs ys"
| "py_gt a b = (case (num_of a, num_of b) of (Some x, Some y) \<Rightarrow> Inr (y < x) | _ \<Rightarrow> Inl TypeError)"
| "py_gt_list [] ys = Inr False"
| "py_gt_list (x # xs) [] = Inr True"
| "py_gt_list (x # xs) (y # ys) = (if py_eq x y then py_gt_list xs ys else py_gt x y)"

text \<open>Iteration: a list gives its elements, a dictionary its keys, a string its characters.\<close>

fun py_iter :: "json \<Rightarrow> exc + json list" where
  "py_iter (JArr xs) = Inr xs"
| "py_iter (JObj kvs) = Inr (map (\<lambda>kv. JStr (fst kv)) kvs)"
| "py_iter (JStr s) = Inr (map (\<lambda>c. JStr [c]) s)"
| "py_iter v = Inl TypeError"

fun py_len :: "json \<Rightarrow> exc + nat" where
  "py_len (JArr xs) = Inr (length xs)"
| "py_len (JObj kvs) = Inr (length kvs)"
| "py_len (JStr s) = Inr (length s)"
| "py_len v = Inl TypeError"

section \<open>Match Selector: get_best_subtitle\<close>

text \<open>The key function \<open>lambda s: s.get("attributes", {}).get("download_count", 0)\<close>.\<close>

definition download_count_key :: "json \<Rightarrow> exc + json" where
  "download_count_key s =
     (case py_get s ''attributes'' (JObj []) of
        Inl e \<Rightarrow> Inl e
      | Inr a \<Rightarrow> py_get a ''download_count'' (JInt 0))"

text \<open>
  The builtin \<open>max(iterable, key=f)\<close>: the first item is the candidate; a later item
  replaces it only when its key is greater, so that the first of several maximal items
  is returned.
\<close>

fun max_loop :: "json \<Rightarrow> json \<Rightarrow> json list \<Rightarrow> exc + json" where
  "max_loop maxitem maxval [] = Inr maxitem"
| "max_loop maxitem maxval (item # rest) =
     (case download_count_key item of
        Inl e \<Rightarrow> Inl e
      | Inr val \<Rightarrow>
          (case py_gt val maxval of
             Inl e \<Rightarrow> Inl e
           | Inr gt \<Rightarrow> if gt then max_loop item val rest else max_loop maxitem maxval rest))"

fun py_max :: "json list \<Rightarrow> exc + json" where
  "py_max [] = Inl ValueError"
| "py_max (item # rest) =
     (case download_count_key item of
        Inl e \<Rightarrow> Inl e
      | Inr val \<Rightarrow> max_loop item val rest)"

definition get_best_subtitle :: "json \<Rightarrow> exc + json" where
  "get_best_subtitle subtitles =
     (if \<not> truthy subtitles then Inr JNull
      else case py_iter subtitles of
             Inl e \<Rightarrow> Inl e
           | Inr items \<Rightarrow> py_max items)"

section \<open>Paths and the Local Subtitle Detector\<close>

text \<open>
  \<open>os.path.basename\<close>, \<open>os.path.splitext\<close> and \<open>os.path.isfile\<close> of the POSIX flavour of
  the standard library: the extension starts at the last dot of the last path component,
  leading dots of that component not counted.
\<close>

definition basename :: "path \<Rightarrow> string" where
  "basename p = rev (takeWhile (\<lambda>c. c \<noteq> CHR ''/'') (rev p))"

definition splitext :: "path \<Rightarrow> path \<times> string" where
  "splitext p =
     (let stem = dropWhile (\<lambda>c. c = CHR ''.'') (basename p) in
      if CHR ''.'' \<in> set stem then
        (let n = length p - Suc (length (takeWhile (\<lambda>c. c \<noteq> CHR ''.'') (rev p))) in
         (take n p, drop n p))
      else (p, []))"

definition isfile :: "state \<Rightarrow> path \<Rightarrow> bool" where
  "isfile s p = (fs s p \<noteq> None)"

text \<open>The loop \<open>for ext in [".srt", ".sub"]\<close> of \<open>has_external_subtitles\<close>.\<close>

primrec ext_loop :: "path \<Rightarrow> string list \<Rightarrow> state \<Rightarrow> bool \<times> state" where
  "ext_loop base [] s = (False, s)"
| "ext_loop base (ext # exts) s =
     (let sub_path = base @ ext in
      if isfile s sub_path then (True, logging (FoundExternal (basename sub_path)) s)
      else ext_loop base exts s)"

definition has_external_subtitles :: "path \<Rightarrow> state \<Rightarrow> bool \<times> state" where
  "has_external_subtitles video_path s =
     (let base = fst (splitext video_path) in ext_loop base [''.srt'', ''.sub''] s)"

text \<open>
  The comprehension \<open>[s for s in streams if s.get("codec_type") == "subtitle"]\<close>, and
  \<open>has_embedded_subtitles\<close>: only \<open>ffmpeg.Error\<close> is caught, every other exception
  leaves the function.
\<close>

fun subtitle_streams :: "json list \<Rightarrow> exc + json list" where
  "subtitle_streams [] = Inr []"
| "subtitle_streams (x # xs) =
     (case py_get x ''codec_type'' JNull of
        Inl e \<Rightarrow> Inl e
      | Inr t \<Rightarrow>
          (case subtitle_streams xs of
             Inl e \<Rightarrow> Inl e
           | Inr r \<Rightarrow> Inr (if py_eq t (JStr ''subtitle'') then x # r else r)))"

definition embedded_try :: "world \<Rightarrow> path \<Rightarrow> state \<Rightarrow> (exc + bool option) \<times> state" where
  "embedded_try w video_path s =
     (case probe w video_path of
        Inl e \<Rightarrow> (Inl e, s)
      | Inr pr \<Rightarrow>
          (case py_get pr ''streams'' (JArr []) of
             Inl e \<Rightarrow> (Inl e, s)
           | Inr streams \<Rightarrow>
               (case py_iter streams of
                  Inl e \<Rightarrow> (Inl e, s)
                | Inr items \<Rightarrow>
                    (case subtitle_streams items of
                       Inl e \<Rightarrow> (Inl e, s)
                     | Inr found \<Rightarrow>
                         if found \<noteq> [] then (Inr (Some True), logging (FoundEmbedded (length found)) s)
                         else (Inr None, s)))))"

definition has_embedded_subtitles :: "world \<Rightarrow> path \<Rightarrow> state \<Rightarrow> (exc + bool) \<times> state" where
  "has_embedded_subtitles w video_path s =
     (case embedded_try w video_path s of
        (Inl e, s') \<Rightarrow>
          if e = FfmpegError then (Inr False, logging (ProbeWarning e) s') else (Inl e, s')
      | (Inr (Some b), s') \<Rightarrow> (Inr b, s')
      | (Inr None, s') \<Rightarrow> (Inr False, s'))"

section \<open>Catalog Client\<close>

text \<open>
  \<open>search_subtitles\<close>: the request is issued, \<open>RequestException\<close> gives the empty list,
  and \<open>data.get("data", [])\<close> is inside the \<open>try\<close> but raises no \<open>RequestException\<close>.
\<close>

definition search_subtitles :: "world \<Rightarrow> (string \<times> json) list \<Rightarrow> state \<Rightarrow> (exc + json) \<times> state" where
  "search_subtitles w params s =
     (let s1 = issue (GetSubtitles params) s in
      case http_search w params of
        Inl e \<Rightarrow>
          if e = RequestException then (Inr (JArr []), logging (ApiRequestFailed e) s1)
          else (Inl e, s1)
      | Inr dat \<Rightarrow>
          (case py_get dat ''data'' (JArr []) of
             Inl e \<Rightarrow> (Inl e, s1)
           | Inr r \<Rightarrow> (Inr r, s1)))"

text \<open>
  \<open>'file_id' in x\<close> and \<open>x['file_id']\<close>: a dictionary is searched by key, a list by
  element, a string for the substring; other values are not containers.
\<close>

fun is_infix :: "string \<Rightarrow> string \<Rightarrow> bool" where
  "is_infix xs [] = (xs = [])"
| "is_infix xs (y # ys) = (take (length xs) (y # ys) = xs \<or> is_infix xs ys)"

fun py_contains :: "string \<Rightarrow> json \<Rightarrow> exc + bool" where
  "py_contains k (JObj kvs) = Inr (map_of kvs k \<noteq> None)"
| "py_contains k (JArr xs) = Inr (list_ex (\<lambda>x. py_eq x (JStr k)) xs)"
| "py_contains k (JStr t) = Inr (is_infix k t)"
| "py_contains k v = Inl TypeError"

fun py_getitem :: "json \<Rightarrow> string \<Rightarrow> exc + json" where
  "py_getitem (JObj kvs) k = (case map_of kvs k of Some v \<Rightarrow> Inr v | None \<Rightarrow> Inl KeyError)"
| "py_getitem v k = Inl TypeError"

fun is_list :: "json \<Rightarrow> bool" where
  "is_list (JArr xs) = True"
| "is_list v = False"

text \<open>
  The final \<open>with open(subtitle_path, "w", encoding="utf-8") as f: f.write(sub_content)\<close>.
  \<open>open\<close> creates or truncates the file before anything is written.
\<close>

definition save_file :: "world \<Rightarrow> path \<Rightarrow> byte list \<Rightarrow> state \<Rightarrow> (exc + unit) \<times> state" where
  "save_file w subtitle_path sub_content s =
     (case save_fault w of
        OpenFails \<Rightarrow> (Inl OSError, s)
      | WriteFailsAfter n \<Rightarrow>
          (Inl OSError, s\<lparr>fs := (fs s)(subtitle_path \<mapsto> take n sub_content)\<rparr>)
      | NoFault \<Rightarrow> (Inr (), s\<lparr>fs := (fs s)(subtitle_path \<mapsto> sub_content)\<rparr>))"

text \<open>The \<open>try\<close> block of \<open>download_and_save_subtitle\<close> (lines 126 to 148).\<close>

definition download_try :: "world \<Rightarrow> json \<Rightarrow> path \<Rightarrow> state \<Rightarrow> (exc + unit) \<times> state" where
  "download_try w file_id video_path s =
     (let s1 = issue (PostDownload (JObj [(''file_id'', file_id)])) (logging RequestingLink s) in
      case http_download w (JObj [(''file_id'', file_id)]) of
        Inl e \<Rightarrow> (Inl e, s1)
      | Inr download_info \<Rightarrow>
          (case py_get download_info ''link'' JNull of
             Inl e \<Rightarrow> (Inl e, s1)
           | Inr download_link \<Rightarrow>
               if \<not> truthy download_link then (Inr (), logging NoDownloadLink s1)
               else
                 (let s2 = issue (GetLink download_link) (logging Downloading s1) in
                  case http_fetch w download_link of
                    Inl e \<Rightarrow> (Inl e, s2)
                  | Inr sub_content \<Rightarrow>
                      (let subtitle_path = fst (splitext video_path) @ ''.srt'' in
                       case save_file w subtitle_path sub_content s2 of
                         (Inl e, s3) \<Rightarrow> (Inl e, s3)
                       | (Inr u, s3) \<Rightarrow>
                           (Inr (), logging (SavedTo (basename subtitle_path)) s3)))))"

text \<open>
  The check of lines 115 to 118, outside the \<open>try\<close>: \<open>not files\<close>, then
  \<open>not isinstance(files, list)\<close>, then \<open>'file_id' not in files[0]\<close>, evaluated in
  this order and stopping at the first that holds. It returns the file identifier, or
  None when the error is logged.
\<close>

definition first_file_id :: "json \<Rightarrow> exc + json option" where
  "first_file_id subtitle_data =
     (case py_get subtitle_data ''attributes'' (JObj []) of
        Inl e \<Rightarrow> Inl e
      | Inr a \<Rightarrow>
          (case py_get a ''files'' JNull of
             Inl e \<Rightarrow> Inl e
           | Inr files \<Rightarrow>
               if \<not> truthy files \<or> \<not> is_list files then Inr None
               else
                 (case files of
                    JArr (f0 # rest) \<Rightarrow>
                      (case py_contains ''file_id'' f0 of
                         Inl e \<Rightarrow> Inl e
                       | Inr present \<Rightarrow>
                           if \<not> present then Inr None
                           else (case py_getitem f0 ''file_id'' of
                                   Inl e \<Rightarrow> Inl e
                                 | Inr file_id \<Rightarrow> Inr (Some file_id)))
                  | _ \<Rightarrow> Inr None)))"

definition download_and_save_subtitle :: "world \<Rightarrow> json \<Rightarrow> path \<Rightarrow> state \<Rightarrow> (exc + unit) \<times> state" where
  "download_and_save_subtitle w subtitle_data video_path s =
     (case first_file_id subtitle_data of
        Inl e \<Rightarrow> (Inl e, s)
      | Inr None \<Rightarrow> (Inr (), logging NoValidFileId s)
      | Inr (Some file_id) \<Rightarrow>
          (case download_try w file_id video_path s of
             (Inl e, s') \<Rightarrow>
               if e = RequestException then (Inr (), logging (DownloadFailed e) s')
               else if is_Exception e then (Inr (), logging (SaveError e) s')
               else (Inl e, s')
           | (Inr u, s') \<Rightarrow> (Inr (), s')))"

section \<open>Acquisition Orchestrator: main\<close>

text \<open>
  Lines 181 to 193 of \<open>main\<close>: the search by hash. The result is the pair of
  \<open>subtitle_data\<close> and \<open>search_method\<close>, both None at the start.
\<close>

definition search_by_hash :: "world \<Rightarrow> path \<Rightarrow> state \<Rightarrow> (exc + json \<times> json) \<times> state" where
  "search_by_hash w video_path s =
     (case generate_opensubtitles_hash w video_path s of
        (Inl e, s1) \<Rightarrow> (Inl e, s1)
      | (Inr movie_hash, s1) \<Rightarrow>
          if truthy movie_hash then
            (case search_subtitles w [(''moviehash'', movie_hash), (''languages'', JStr ''en'')]
                    (logging (HashGenerated movie_hash) s1) of
               (Inl e, s2) \<Rightarrow> (Inl e, s2)
             | (Inr results, s2) \<Rightarrow>
                 if truthy results then
                   (case get_best_subtitle results of
                      Inl e \<Rightarrow> (Inl e, s2)
                    | Inr subtitle_data \<Rightarrow>
                        (case py_len results of
                           Inl e \<Rightarrow> (Inl e, s2)
                         | Inr n \<Rightarrow> (Inr (subtitle_data, JStr ''hash''), logging (FoundByHash n) s2)))
                 else (Inr (JNull, JNull), s2))
          else (Inr (JNull, JNull), s1))"

text \<open>Lines 195 to 203: the search by file name, entered when \<open>subtitle_data\<close> is falsy.\<close>

definition search_by_name :: "world \<Rightarrow> string \<Rightarrow> json \<times> json \<Rightarrow> state \<Rightarrow> (exc + json \<times> json) \<times> state" where
  "search_by_name w filename found s =
     (if \<not> truthy (fst found) then
        (case search_subtitles w
                [(''query'', JStr (fst (splitext filename))), (''languages'', JStr ''en'')]
                (logging SearchingByFilename s) of
           (Inl e, s2) \<Rightarrow> (Inl e, s2)
         | (Inr results, s2) \<Rightarrow>
             if truthy results then
               (case get_best_subtitle results of
                  Inl e \<Rightarrow> (Inl e, s2)
                | Inr subtitle_data \<Rightarrow>
                    (case py_len results of
                       Inl e \<Rightarrow> (Inl e, s2)
                     | Inr n \<Rightarrow>
                         (Inr (subtitle_data, JStr ''filename''), logging (FoundByFilename n) s2)))
             else (Inr found, s2))
      else (Inr found, s))"

text \<open>Lines 205 to 212: the download, or the report that nothing was found.\<close>

definition download_or_report :: "world \<Rightarrow> path \<Rightarrow> json \<times> json \<Rightarrow> state \<Rightarrow> (exc + unit) \<times> state" where
  "download_or_report w video_path found s =
     (if truthy (fst found) then
        (case download_and_save_subtitle w (fst found) video_path
                (logging (BestMatch (snd found)) s) of
           (Inl e, s') \<Rightarrow> (Inl e, s')
         | (Inr u, s') \<Rightarrow> (Inr (), logging Finished s'))
      else (Inr (), logging Finished (logging NoneFound s)))"

text \<open>Lines 181 to 212: the two searches and the download, in sequence.\<close>

definition acquire :: "world \<Rightarrow> path \<Rightarrow> string \<Rightarrow> state \<Rightarrow> (exc + unit) \<times> state" where
  "acquire w video_path filename s =
     (case search_by_hash w video_path s of
        (Inl e, s1) \<Rightarrow> (Inl e, s1)
      | (Inr found, s1) \<Rightarrow>
          (case search_by_name w filename found s1 of
             (Inl e, s2) \<Rightarrow> (Inl e, s2)
           | (Inr found', s2) \<Rightarrow> download_or_report w video_path found' s2))"

text \<open>
  Lines 160 to 179, followed by the acquisition: \<open>main\<close> after its first statement.
  \<open>sys.exit\<close> raises \<open>SystemExit\<close>.
\<close>

definition main_body :: "world \<Rightarrow> state \<Rightarrow> (exc + unit) \<times> state" where
  "main_body w s =
     (if API_KEY w = None \<or> API_KEY w = Some [] then (Inl (SystemExit 1), logging NoApiKey s)
      else
        (let video_path = video_arg w; filename = basename video_path in
         if \<not> isfile s video_path then (Inl (SystemExit 1), logging (FileNotFound video_path) s)
         else
           (case has_external_subtitles video_path (logging (Processing filename) s) of
              (True, s2) \<Rightarrow> (Inl (SystemExit 0), logging Skipping s2)
            | (False, s2) \<Rightarrow>
                (case has_embedded_subtitles w video_path s2 of
                   (Inl e, s3) \<Rightarrow> (Inl e, s3)
                 | (Inr True, s3) \<Rightarrow> (Inl (SystemExit 0), logging Skipping s3)
                 | (Inr False, s3) \<Rightarrow> acquire w video_path filename s3))))"

text \<open>
  \<open>setup_logging\<close> and \<open>main\<close> as the module has them. From line 30 on, every line of the
  file is indented into the body of \<open>setup_logging\<close>: the functions above are local to it,
  and so is the final \<open>if __name__ == "__main__": main()\<close>. \<open>main\<close> begins with a call of
  \<open>setup_logging\<close>, so the two call each other when the module is the script; the first
  argument is the number of frames left before Python raises \<open>RecursionError\<close>.
  \<open>logging.basicConfig\<close> changes nothing of the state modelled here.
\<close>

fun main :: "nat \<Rightarrow> world \<Rightarrow> state \<Rightarrow> (exc + unit) \<times> state"
  and setup_logging :: "nat \<Rightarrow> world \<Rightarrow> state \<Rightarrow> (exc + unit) \<times> state" where
  "main 0 w s = (Inl RecursionError, s)"
| "main (Suc d) w s =
     (case setup_logging d w s of
        (Inl e, s') \<Rightarrow> (Inl e, s')
      | (Inr u, s') \<Rightarrow> main_body w s')"
| "setup_logging 0 w s = (Inl RecursionError, s)"
| "setup_logging (Suc d) w s = (if name_is_main w then main d w s else (Inr (), s))"

text \<open>
  The module at top level: the imports, the constants \<open>API_KEY\<close>, \<open>API_URL\<close> and
  \<open>USER_AGENT\<close>, and the \<open>def\<close> of \<open>setup_logging\<close>, which binds the name and runs
  nothing. There is no other statement at top level. The exit status of the interpreter
  is 0 when the module ends, the code of an uncaught \<open>SystemExit\<close>, and 1 for any other
  uncaught exception.
\<close>

definition module_body :: "world \<Rightarrow> state \<Rightarrow> (exc + unit) \<times> state" where
  "module_body w s = (Inr (), s)"

fun exit_status :: "exc + unit \<Rightarrow> nat" where
  "exit_status (Inr u) = 0"
| "exit_status (Inl (SystemExit c)) = c"
| "exit_status (Inl e) = 1"

definition run_script :: "world \<Rightarrow> state \<Rightarrow> nat \<times> state" where
  "run_script w s = (case module_body w s of (r, s') \<Rightarrow> (exit_status r, s'))"

section \<open>Specification-side and auxiliary definitions\<close>

text \<open>
  The sum of \<open>n\<close> consecutive signed (\<open>ssum\<close>) or unsigned (\<open>usum\<close>) 64-bit
  little-endian integers of a file, starting at byte \<open>pos\<close>.
\<close>

primrec ssum :: "nat \<Rightarrow> byte list \<Rightarrow> nat \<Rightarrow> int" where
  "ssum 0 dat pos = 0"
| "ssum (Suc n) dat pos = le_s64 (take 8 (drop pos dat)) + ssum n dat (pos + 8)"

text \<open>Reading a hexadecimal string back as a number.\<close>

definition hex_char_value :: "char \<Rightarrow> nat" where
  "hex_char_value c = length (takeWhile (\<lambda>d. d \<noteq> c) ''0123456789abcdef'')"

definition hex_value :: "string \<Rightarrow> nat" where
  "hex_value s = foldl (\<lambda>a c. 16 * a + hex_char_value c) 0 s"

text \<open>
  The value that the two loops accumulate, written with the decoder of the loop: the
  length plus the two window sums, modulo \<open>2 ^ 64\<close>.
\<close>

definition window_sum :: "byte list \<Rightarrow> int" where
  "window_sum bs =
     (int (length bs)
      + (\<Sum>k<8192. le_s64 (take 8 (drop (8 * k) bs)))
      + (\<Sum>k<8192. le_s64 (take 8 (drop (length bs - 65536 + 8 * k) bs)))) mod 2 ^ 64"

text \<open>
  The fingerprint in the words of the specification, with a decoder of its own. A
  little-endian signed 64-bit integer of eight bytes: byte \<open>i\<close> has the weight
  \<open>2 ^ (8 * i)\<close>, and the value is negative, by two's complement, exactly when the top
  bit of the last byte is set. The fingerprint is the length, plus the first 8192 such
  integers of the file, plus the 8192 such integers that start at byte offset
  \<open>length - 65536\<close>, modulo \<open>2 ^ 64\<close>.
\<close>

definition spec_le_s64 :: "byte list \<Rightarrow> int" where
  "spec_le_s64 bs =
     (\<Sum>i<8. uint (bs ! i) * 2 ^ (8 * i)) - (if 128 \<le> uint (bs ! 7) then 2 ^ 64 else 0)"

definition spec_fingerprint :: "byte list \<Rightarrow> int" where
  "spec_fingerprint bs =
     (int (length bs)
      + (\<Sum>k<8192. spec_le_s64 (take 8 (drop (8 * k) bs)))
      + (\<Sum>k<8192. spec_le_s64 (take 8 (drop (length bs - 65536 + 8 * k) bs)))) mod 2 ^ 64"

text \<open>
  A file of 131072 bytes that begins with the bytes 1 and 2 and ends with the byte 3;
  all other bytes are 0.
\<close>

definition sample_file :: "byte list" where
  "sample_file = (replicate 131072 0)[0 := 1, 1 := 2, 131071 := 3]"

primrec usum :: "nat \<Rightarrow> byte list \<Rightarrow> nat \<Rightarrow> int" where
  "usum 0 dat pos = 0"
| "usum (Suc n) dat pos = le_uint (take 8 (drop pos dat)) + usum n dat (pos + 8)"

text \<open>The same sum over unsigned integers, before the reduction modulo \<open>2 ^ 64\<close>.\<close>

definition ufp :: "byte list \<Rightarrow> int" where
  "ufp d = int (length d) + usum 8192 d 0 + usum 8192 d (length d - 65536)"

text \<open>
  A concrete environment and file system for the examples: no read fault, a probe that
  reports no stream, a catalog that answers every request with an empty object.
\<close>

definition quiet_world :: world where
  "quiet_world = \<lparr>API_KEY = Some ''key'', name_is_main = False, video_arg = ''/m/film.mkv'',
     read_fault = (\<lambda>p. False), probe = (\<lambda>p. Inr (JObj [])),
     http_search = (\<lambda>q. Inr (JObj [])), http_download = (\<lambda>j. Inr (JObj [])),
     http_fetch = (\<lambda>j. Inr []), save_fault = NoFault\<rparr>"

definition disk_with :: "path \<Rightarrow> byte list \<Rightarrow> state" where
  "disk_with p dat = \<lparr>fs = [p \<mapsto> dat], calls = [], log = []\<rparr>"

text \<open>
  A candidate record as the catalog documents it: an object whose \<open>attributes\<close> entry,
  when present, is an object whose \<open>download_count\<close> entry, when present, is an integer.
  \<open>count_of\<close> is its download count, 0 when the count or the whole \<open>attributes\<close> object
  is missing.
\<close>

fun wf_count :: "json \<Rightarrow> bool" where
  "wf_count (JInt i) = True"
| "wf_count v = False"

fun wf_attributes :: "json \<Rightarrow> bool" where
  "wf_attributes (JObj avs) =
     (case map_of avs ''download_count'' of None \<Rightarrow> True | Some c \<Rightarrow> wf_count c)"
| "wf_attributes v = False"

fun wf_record :: "json \<Rightarrow> bool" where
  "wf_record (JObj kvs) =
     (case map_of kvs ''attributes'' of None \<Rightarrow> True | Some a \<Rightarrow> wf_attributes a)"
| "wf_record v = False"


fun count_of :: "json \<Rightarrow> int" where
  "count_of (JObj kvs) =
     (case map_of kvs ''attributes'' of
        Some (JObj avs) \<Rightarrow>
          (case map_of avs ''download_count'' of Some (JInt i) \<Rightarrow> i | _ \<Rightarrow> 0)
      | _ \<Rightarrow> 0)"
| "count_of v = 0"

text \<open>Four records with the download counts 3, 7, 7 and 1, and one without attributes.\<close>

definition rec_with :: "string \<Rightarrow> int \<Rightarrow> json" where
  "rec_with name n =
     JObj [(''id'', JStr name), (''attributes'', JObj [(''download_count'', JInt n)])]"

definition four_records :: "json list" where
  "four_records = [rec_with ''a'' 3, rec_with ''b'' 7, rec_with ''c'' 7, rec_with ''d'' 1]"

definition bare_record :: json where
  "bare_record = JObj [(''id'', JStr ''e'')]"


text \<open>
  What a run adds to the trace of requests and to the log, and the terminal states of the
  specification read off the log: DONE_ERROR is one of the four error reports of
  \<open>download_and_save_subtitle\<close>, DONE_DOWNLOADED the report that the file was saved,
  DONE_SKIPPED the exit with status 0 after the report that subtitles exist, and
  DONE_NOT_FOUND the normal return after the report that the catalog has no match.
\<close>

definition new_calls :: "state \<Rightarrow> state \<Rightarrow> net_call list" where
  "new_calls s s' = drop (length (calls s)) (calls s')"

definition new_log :: "state \<Rightarrow> state \<Rightarrow> log_event list" where
  "new_log s s' = drop (length (log s)) (log s')"

fun is_download_error :: "log_event \<Rightarrow> bool" where
  "is_download_error NoValidFileId = True"
| "is_download_error NoDownloadLink = True"
| "is_download_error (DownloadFailed e) = True"
| "is_download_error (SaveError e) = True"
| "is_download_error ev = False"

fun is_saved :: "log_event \<Rightarrow> bool" where
  "is_saved (SavedTo p) = True"
| "is_saved ev = False"

definition done_error :: "state \<Rightarrow> state \<Rightarrow> bool" where
  "done_error s s' = (list_ex is_download_error (new_log s s') \<and> \<not> list_ex is_saved (new_log s s'))"

definition done_downloaded :: "state \<Rightarrow> state \<Rightarrow> bool" where
  "done_downloaded s s' = (list_ex is_saved (new_log s s') \<and> \<not> list_ex is_download_error (new_log s s'))"

definition done_skipped :: "exc + unit \<Rightarrow> state \<Rightarrow> state \<Rightarrow> bool" where
  "done_skipped res s s' = (res = Inl (SystemExit 0) \<and> Skipping \<in> set (new_log s s'))"


fun is_post :: "net_call \<Rightarrow> bool" where
  "is_post (PostDownload j) = True"
| "is_post c = False"

fun is_fetch :: "net_call \<Rightarrow> bool" where
  "is_fetch (GetLink j) = True"
| "is_fetch c = False"

text \<open>The file list of a record: \<open>attributes.files\<close> when it is a list, else no descriptor.\<close>

fun file_list :: "json \<Rightarrow> json list" where
  "file_list (JObj kvs) =
     (case map_of kvs ''attributes'' of
        Some (JObj avs) \<Rightarrow> (case map_of avs ''files'' of Some (JArr fl) \<Rightarrow> fl | _ \<Rightarrow> [])
      | _ \<Rightarrow> [])"
| "file_list v = []"

text \<open>
  \<open>resolve_download\<close> in the words of the specification: post the identifier and read
  the \<open>link\<close> field of the answer; absent on any error and when the field is missing or
  empty.
\<close>

definition resolve_download :: "world \<Rightarrow> json \<Rightarrow> json option" where
  "resolve_download w file_id =
     (case http_download w (JObj [(''file_id'', file_id)]) of
        Inl e \<Rightarrow> None
      | Inr info \<Rightarrow>
          (case py_get info ''link'' JNull of
             Inl e \<Rightarrow> None
           | Inr l \<Rightarrow> if truthy l then Some l else None))"


text \<open>
  Concrete runs: a record with two file descriptors, a catalog that resolves the file
  identifier 42 to a link and serves four bytes of text there, and a disk that already
  holds a subtitle file.
\<close>

definition rec_files :: json where
  "rec_files = JObj [(''attributes'', JObj [(''download_count'', JInt 5),
     (''files'', JArr [JObj [(''file_id'', JInt 42)], JObj [(''file_id'', JInt 43)]])])]"

definition serving_world :: world where
  "serving_world = quiet_world\<lparr>
     http_download := (\<lambda>j. if j = JObj [(''file_id'', JInt 42)]
                          then Inr (JObj [(''link'', JStr ''https://dl/42'')]) else Inl RequestException),
     http_fetch := (\<lambda>l. if l = JStr ''https://dl/42'' then Inr [49, 10, 72, 105] else Inl RequestException)\<rparr>"

definition old_disk :: state where
  "old_disk = \<lparr>fs = [''/m/film.mkv'' \<mapsto> [0, 1], ''/m/film.srt'' \<mapsto> [79, 76, 68]], calls = [], log = []\<rparr>"

text \<open>
  A disk with the video only, a catalog that knows the film by its name and not by its
  hash, and a system without the probing tool.
\<close>

definition new_disk :: state where
  "new_disk = \<lparr>fs = [''/m/film.mkv'' \<mapsto> [0, 1]], calls = [], log = []\<rparr>"


definition no_ffprobe_world :: world where
  "no_ffprobe_world = quiet_world\<lparr>probe := (\<lambda>p. Inl FileNotFoundError)\<rparr>"



section \<open>The fingerprint\<close>

lemma and_mask64: "(k::int) AND 0xFFFFFFFFFFFFFFFF = k mod 2 ^ 64"
proof -
  have "(0xFFFFFFFFFFFFFFFF::int) = mask 64" by (simp add: mask_eq_exp_minus_1)
  then show ?thesis by (simp only: flip: take_bit_eq_mask) (simp add: take_bit_eq_mod)
qed

lemma read_loop_step:
  "pos + 8 \<le> length dat \<Longrightarrow>
   read_loop (Suc n) dat pos h =
   read_loop n dat (pos + 8) ((h + le_s64 (take 8 (drop pos dat))) mod 2 ^ 64)"
proof -
  assume "pos + 8 \<le> length dat"
  then have len: "length (take 8 (drop pos dat)) = 8" by simp
  show ?thesis
    unfolding read_loop.simps Let_def unpack_q_def len by (simp add: and_mask64)
qed

lemma read_loop_ok:
  "pos + 8 * n \<le> length dat \<Longrightarrow>
   read_loop n dat pos h = Inr ((if n = 0 then h else (h + ssum n dat pos) mod 2 ^ 64), pos + 8 * n)"
proof (induction n arbitrary: pos h)
  case 0 then show ?case by simp
next
  case (Suc n)
  have a: "pos + 8 \<le> length dat" using Suc.prems by simp
  have "pos + 8 + 8 * n \<le> length dat" using Suc.prems by simp
  from Suc.IH[OF this] show ?case
    unfolding read_loop_step[OF a] by (simp add: mod_simps add.assoc)
qed

lemma lt16_cases:
  "d < (16::nat) \<Longrightarrow> d = 0 \<or> d = 1 \<or> d = 2 \<or> d = 3 \<or> d = 4 \<or> d = 5 \<or> d = 6 \<or> d = 7 \<or>
     d = 8 \<or> d = 9 \<or> d = 10 \<or> d = 11 \<or> d = 12 \<or> d = 13 \<or> d = 14 \<or> d = 15"
  by arith

lemma hex_char_value_digit: "d < 16 \<Longrightarrow> hex_char_value (hex_digit d) = d"
  by (drule lt16_cases) (auto simp: hex_char_value_def hex_digit_def)

lemma hex_digit_in: "d < 16 \<Longrightarrow> hex_digit d \<in> set ''0123456789abcdef''"
  by (drule lt16_cases) (auto simp: hex_digit_def)

lemma to_hex_set: "set (to_hex n) \<subseteq> set ''0123456789abcdef''"
proof (induction n rule: to_hex.induct)
  case (1 n)
  show ?case
  proof (cases "n < 16")
    case True
    then show ?thesis using hex_digit_in[of n] by (subst to_hex.simps) simp
  next
    case False
    have "n mod 16 < 16" by simp
    from hex_digit_in[OF this] 1[OF False] False show ?thesis
      by (subst to_hex.simps) simp
  qed
qed

lemma hex_value_snoc: "hex_value (s @ [c]) = 16 * hex_value s + hex_char_value c"
  by (simp add: hex_value_def)

lemma to_hex_value: "hex_value (to_hex n) = n"
proof (induction n rule: to_hex.induct)
  case (1 n)
  show ?case
  proof (cases "n < 16")
    case True
    then show ?thesis
      by (subst to_hex.simps) (simp add: hex_value_def hex_char_value_digit)
  next
    case False
    then show ?thesis using 1[OF False]
      by (subst to_hex.simps) (simp add: hex_value_snoc hex_char_value_digit)
  qed
qed

lemma to_hex_length: "n < 16 ^ Suc k \<Longrightarrow> length (to_hex n) \<le> Suc k"
proof (induction k arbitrary: n)
  case 0
  then show ?case by (subst to_hex.simps) simp
next
  case (Suc k)
  show ?case
  proof (cases "n < 16")
    case True
    then show ?thesis by (subst to_hex.simps) simp
  next
    case False
    have "n div 16 < 16 ^ Suc k" using Suc.prems by (simp add: less_mult_imp_div_less)
    from Suc.IH[OF this] False show ?thesis by (subst to_hex.simps) simp
  qed
qed

lemma hex_value_zeros: "hex_value (replicate m (CHR ''0'') @ s) = hex_value s"
proof -
  have "foldl (\<lambda>a c. 16 * a + hex_char_value c) 0 (replicate m (CHR ''0'')) = 0"
    by (induction m) (simp_all add: hex_char_value_def)
  then show ?thesis by (simp add: hex_value_def)
qed

lemma fmt_016x_props:
  assumes "0 \<le> v" "v < 2 ^ 64"
  shows "length (fmt_016x v) = 16"
    and "set (fmt_016x v) \<subseteq> set ''0123456789abcdef''"
    and "int (hex_value (fmt_016x v)) = v"
proof -
  have "nat v < 16 ^ Suc 15" using assms by (simp add: nat_less_iff)
  from to_hex_length[OF this] have len: "length (to_hex (nat v)) \<le> 16" by simp
  show "length (fmt_016x v) = 16" using assms len by (simp add: fmt_016x_def zfill_def)
  show "set (fmt_016x v) \<subseteq> set ''0123456789abcdef''"
    using assms to_hex_set[of "nat v"] by (auto simp: fmt_016x_def zfill_def)
  show "int (hex_value (fmt_016x v)) = v"
    using assms by (simp add: fmt_016x_def zfill_def hex_value_zeros to_hex_value)
qed

lemma ssum_sum: "ssum n dat pos = (\<Sum>k<n. le_s64 (take 8 (drop (pos + 8 * k) dat)))"
proof (induction n arbitrary: pos)
  case 0 show ?case by simp
next
  case (Suc n)
  show ?case by (simp add: Suc.IH sum.lessThan_Suc_shift add.assoc del: sum.lessThan_Suc)
qed

lemma hash_try_ok:
  assumes "fs s video_path = Some dat" "131072 \<le> length dat" "\<not> read_fault w video_path"
  shows "hash_try w video_path s = (Inr (JStr (fmt_016x (window_sum dat))), s)"
proof -
  have n: "(65536::nat) div 8 = 8192" by simp
  have a: "0 + 8 * 8192 \<le> length dat" using assms(2) by simp
  have p: "nat (max 0 (int (length dat) - 65536)) = length dat - 65536" using assms(2) by simp
  have b: "(length dat - 65536) + 8 * 8192 \<le> length dat" using assms(2) by simp
  have z: "(8192::nat) \<noteq> 0" by simp
  show ?thesis
    unfolding hash_try_def assms(1) option.case Let_def n p
      read_loop_ok[OF a] read_loop_ok[OF b] sum.case prod.case if_not_P[OF z]
    using assms(2,3)
    by (simp add: window_sum_def ssum_sum mod_simps del: sum.lessThan_Suc)
qed

lemma le_s64_mod: "le_s64 bs mod 2 ^ 64 = le_uint bs mod 2 ^ 64"
  by (simp add: le_s64_def Let_def)

lemma ssum_usum_mod: "ssum n dat pos mod 2 ^ 64 = usum n dat pos mod 2 ^ 64"
proof (induction n arbitrary: pos)
  case 0 show ?case by simp
next
  case (Suc n)
  show ?case using mod_add_cong[OF le_s64_mod Suc.IH] by simp
qed

lemma le_uint_update:
  "j < length xs \<Longrightarrow> le_uint (xs[j := b]) = le_uint xs + (uint b - uint (xs ! j)) * 256 ^ j"
proof (induction xs arbitrary: j)
  case Nil then show ?case by simp
next
  case (Cons x xs)
  show ?case
  proof (cases j)
    case 0 then show ?thesis by simp
  next
    case (Suc k)
    then have "k < length xs" using Cons.prems by simp
    from Cons.IH[OF this] Suc show ?thesis by (simp add: algebra_simps)
  qed
qed

lemma chunk_outside:
  "i < pos \<or> pos + 8 \<le> i \<Longrightarrow> take 8 (drop pos (d[i := b])) = take 8 (drop pos d)"
proof (cases "i < pos")
  case True then show ?thesis by (simp add: drop_update_cancel)
next
  case False
  assume "i < pos \<or> pos + 8 \<le> i"
  with False have "pos \<le> i" "8 \<le> i - pos" by auto
  then show ?thesis by (simp add: drop_update_swap take_update_cancel)
qed

lemma chunk_inside:
  "pos \<le> i \<Longrightarrow> take 8 (drop pos (d[i := b])) = (take 8 (drop pos d))[i - pos := b]"
  by (simp add: drop_update_swap take_update_swap)

lemma usum_outside:
  "i < pos \<or> pos + 8 * n \<le> i \<Longrightarrow> usum n (d[i := b]) pos = usum n d pos"
proof (induction n arbitrary: pos)
  case 0 show ?case by simp
next
  case (Suc n)
  have a: "i < pos \<or> pos + 8 \<le> i" using Suc.prems by auto
  have "i < pos + 8 \<or> pos + 8 + 8 * n \<le> i" using Suc.prems by auto
  from Suc.IH[OF this] show ?case by (simp add: chunk_outside[OF a])
qed

lemma usum_inside:
  "pos \<le> i \<Longrightarrow> i < pos + 8 * n \<Longrightarrow> pos + 8 * n \<le> length d \<Longrightarrow>
   usum n (d[i := b]) pos = usum n d pos + (uint b - uint (d ! i)) * 256 ^ ((i - pos) mod 8)"
proof (induction n arbitrary: pos)
  case 0 then show ?case by simp
next
  case (Suc n)
  show ?case
  proof (cases "i < pos + 8")
    case True
    have j: "i - pos < length (take 8 (drop pos d))" using True Suc.prems by simp
    have nth: "take 8 (drop pos d) ! (i - pos) = d ! i" using True Suc.prems by simp
    have m: "(i - pos) mod 8 = i - pos" using True Suc.prems by simp
    have rest: "usum n (d[i := b]) (pos + 8) = usum n d (pos + 8)"
      using True by (intro usum_outside) simp
    show ?thesis
      unfolding usum.simps chunk_inside[OF Suc.prems(1)] le_uint_update[OF j] nth m rest
      by simp
  next
    case False
    have a: "i < pos \<or> pos + 8 \<le> i" using False by simp
    have m: "(i - (pos + 8)) mod 8 = (i - pos) mod 8"
    proof -
      have "8 \<le> i - pos" using False by simp
      from le_mod_geq[OF this] show ?thesis by simp
    qed
    have "usum n (d[i := b]) (pos + 8) =
          usum n d (pos + 8) + (uint b - uint (d ! i)) * 256 ^ ((i - (pos + 8)) mod 8)"
      using False Suc.prems by (intro Suc.IH) simp_all
    then show ?thesis by (simp add: chunk_outside[OF a] m)
  qed
qed

lemma window_sum_ufp: "window_sum d = ufp d mod 2 ^ 64"
proof -
  have "window_sum d =
        (int (length d) + ssum 8192 d 0 + ssum 8192 d (length d - 65536)) mod 2 ^ 64"
    by (simp add: window_sum_def ssum_sum del: sum.lessThan_Suc)
  also have "\<dots> = ufp d mod 2 ^ 64"
    unfolding ufp_def
    by (intro mod_add_cong ssum_usum_mod refl)
  finally show ?thesis .
qed

lemma byte_delta_not_dvd:
  assumes "b \<noteq> (c::byte)" "j < 8"
  shows "\<not> (2 ^ 64 dvd (uint b - uint c) * 256 ^ j)"
proof
  assume dv: "(2::int) ^ 64 dvd (uint b - uint c) * 256 ^ j"
  have ne: "uint b - uint c \<noteq> 0" using assms(1) by (simp add: word_uint_eq_iff)
  have bd: "\<bar>uint b - uint c\<bar> < 256"
  proof -
    have "uint b < 256" "uint c < 256" using uint_lt2p[of b] uint_lt2p[of c] by simp_all
    moreover have "0 \<le> uint b" "0 \<le> uint c" by simp_all
    ultimately show ?thesis by linarith
  qed
  have pw: "(256::int) ^ j \<le> 256 ^ 7" using assms(2) by (intro power_increasing) simp_all
  have "\<bar>(uint b - uint c) * 256 ^ j\<bar> = \<bar>uint b - uint c\<bar> * 256 ^ j" by (simp add: abs_mult)
  also have "\<dots> \<le> 255 * 256 ^ 7" using bd pw by (intro mult_mono) simp_all
  also have "\<dots> < (2::int) ^ 64" by simp
  finally have lt: "\<bar>(uint b - uint c) * 256 ^ j\<bar> < 2 ^ 64" .
  have "(uint b - uint c) * 256 ^ j \<noteq> 0" using ne by simp
  from dvd_imp_le_int[OF this dv] lt show False by simp
qed

lemma ufp_window_change:
  assumes "131072 \<le> length d" "i < 65536 \<or> (length d - 65536 \<le> i \<and> i < length d)"
  shows "ufp (d[i := b]) = ufp d + (uint b - uint (d ! i)) * 256 ^ ((i - (if i < 65536 then 0 else length d - 65536)) mod 8)"
proof (cases "i < 65536")
  case True
  have 1: "usum 8192 (d[i := b]) 0 = usum 8192 d 0 + (uint b - uint (d ! i)) * 256 ^ ((i - 0) mod 8)"
    using True assms(1) by (intro usum_inside) simp_all
  have 2: "usum 8192 (d[i := b]) (length d - 65536) = usum 8192 d (length d - 65536)"
    using True assms(1) by (intro usum_outside) simp
  show ?thesis using True by (simp add: ufp_def 1 2)
next
  case False
  with assms(2) have r: "length d - 65536 \<le> i" "i < length d" by auto
  have 1: "usum 8192 (d[i := b]) 0 = usum 8192 d 0"
    using False by (intro usum_outside) simp
  have 2: "usum 8192 (d[i := b]) (length d - 65536) =
           usum 8192 d (length d - 65536) + (uint b - uint (d ! i)) * 256 ^ ((i - (length d - 65536)) mod 8)"
    using r assms(1) by (intro usum_inside) simp_all
  show ?thesis using False by (simp add: ufp_def 1 2)
qed

lemma window_sum_window_change:
  assumes "131072 \<le> length d" "i < 65536 \<or> (length d - 65536 \<le> i \<and> i < length d)" "b \<noteq> d ! i"
  shows "window_sum (d[i := b]) \<noteq> window_sum d"
proof
  assume eq: "window_sum (d[i := b]) = window_sum d"
  define j where "j = (i - (if i < 65536 then 0 else length d - 65536)) mod 8"
  have j8: "j < 8" by (simp add: j_def)
  have "ufp (d[i := b]) = ufp d + (uint b - uint (d ! i)) * 256 ^ j"
    unfolding j_def by (rule ufp_window_change[OF assms(1,2)])
  with eq have "(ufp d + (uint b - uint (d ! i)) * 256 ^ j) mod 2 ^ 64 = ufp d mod 2 ^ 64"
    by (simp add: window_sum_ufp)
  then have "2 ^ 64 dvd (ufp d + (uint b - uint (d ! i)) * 256 ^ j) - ufp d"
    by (simp only: mod_eq_dvd_iff)
  then have "2 ^ 64 dvd (uint b - uint (d ! i)) * 256 ^ j" by simp
  with byte_delta_not_dvd[OF assms(3) j8] show False by simp
qed

lemma window_sum_windows:
  assumes "131072 \<le> length d" "length d' = length d" "take 65536 d' = take 65536 d"
    "drop (length d - 65536) d' = drop (length d - 65536) d"
  shows "window_sum d' = window_sum d"
proof -
  have f: "take 8 (drop (8 * k) d') = take 8 (drop (8 * k) d)" if "k < 8192" for k
  proof -
    have "take 8 (drop (8 * k) x) = take 8 (drop (8 * k) (take 65536 x))" for x :: "byte list"
      using that by (simp add: drop_take)
    then show ?thesis using assms(3) by metis
  qed
  have l: "drop (length d' - 65536 + 8 * k) d' = drop (length d - 65536 + 8 * k) d" for k
  proof -
    have "drop (length x - 65536 + 8 * k) x = drop (8 * k) (drop (length x - 65536) x)" for x :: "byte list"
      by (simp add: add.commute)
    then show ?thesis using assms(2,4) by metis
  qed
  show ?thesis
    unfolding window_sum_def assms(2) l[unfolded assms(2)]
    using f by (simp del: sum.lessThan_Suc)
qed

lemma generate_hash_small:
  "fs s video_path = Some dat \<Longrightarrow> length dat < 131072 \<Longrightarrow>
   generate_opensubtitles_hash w video_path s = (Inr JNull, logging FileTooSmall s)"
  by (simp add: generate_opensubtitles_hash_def hash_try_def Let_def)

lemma generate_hash_ok:
  "fs s video_path = Some dat \<Longrightarrow> 131072 \<le> length dat \<Longrightarrow> \<not> read_fault w video_path \<Longrightarrow>
   generate_opensubtitles_hash w video_path s = (Inr (JStr (fmt_016x (window_sum dat))), s)"
  by (simp add: generate_opensubtitles_hash_def hash_try_ok)

lemma window_sum_range: "0 \<le> window_sum d \<and> window_sum d < 2 ^ 64"
  by (simp add: window_sum_def del: sum.lessThan_Suc)

lemma le_uint_zeros: "le_uint (replicate m 0) = 0"
  by (induction m) simp_all

lemma to_hex_small: "n < 16 \<Longrightarrow> to_hex n = [hex_digit n]"
  by (subst to_hex.simps) simp

lemma to_hex_large: "16 \<le> n \<Longrightarrow> to_hex n = to_hex (n div 16) @ [hex_digit (n mod 16)]"
  by (subst to_hex.simps) simp

lemma fmt_016x_inj:
  assumes "0 \<le> a" "a < 2 ^ 64" "0 \<le> b" "b < 2 ^ 64" "fmt_016x a = fmt_016x b"
  shows "a = b"
proof -
  have "a = int (hex_value (fmt_016x a))" using fmt_016x_props(3)[OF assms(1,2)] by (rule sym)
  also have "\<dots> = int (hex_value (fmt_016x b))" by (simp only: assms(5))
  also have "\<dots> = b" by (rule fmt_016x_props(3)[OF assms(3,4)])
  finally show ?thesis .
qed

lemma window_sum_middle:
  assumes "65536 \<le> i" "i < length d - 65536"
  shows "window_sum (d[i := b]) = window_sum d"
proof -
  have "131072 \<le> length d" using assms by simp
  moreover have "take 65536 (d[i := b]) = take 65536 d" using assms(1) by (simp add: take_update_cancel)
  moreover have "drop (length d - 65536) (d[i := b]) = drop (length d - 65536) d"
    using assms(2) by (simp add: drop_update_cancel)
  ultimately show ?thesis by (intro window_sum_windows) simp_all
qed

text \<open>
  Claim C2. For a readable file of at least 131072 bytes: a second file with the same
  length, the same first 65536 bytes and the same last 65536 bytes has the same
  fingerprint; changing one byte inside the first or the last 65536 bytes changes the
  fingerprint; changing one byte strictly between the two windows does not.
\<close>

theorem C2_fingerprint_windows:
  assumes "fs s p = Some dat" and "fs s' p' = Some dat'"
    and "\<not> read_fault w p" and "\<not> read_fault w' p'" and "131072 \<le> length dat"
  shows "(length dat' = length dat \<and> take 65536 dat' = take 65536 dat \<and>
          drop (length dat - 65536) dat' = drop (length dat - 65536) dat \<longrightarrow>
            fst (generate_opensubtitles_hash w' p' s') = fst (generate_opensubtitles_hash w p s))
       \<and> ((i < 65536 \<or> (length dat - 65536 \<le> i \<and> i < length dat)) \<and> b \<noteq> dat ! i \<and>
          dat' = dat[i := b] \<longrightarrow>
            fst (generate_opensubtitles_hash w' p' s') \<noteq> fst (generate_opensubtitles_hash w p s))
       \<and> (131072 < length dat \<and> 65536 \<le> i \<and> i < length dat - 65536 \<and> dat' = dat[i := b] \<longrightarrow>
            fst (generate_opensubtitles_hash w' p' s') = fst (generate_opensubtitles_hash w p s))"
proof -
  have g: "fst (generate_opensubtitles_hash w p s) = Inr (JStr (fmt_016x (window_sum dat)))"
    using generate_hash_ok[OF assms(1,5,3)] by simp
  have g': "fst (generate_opensubtitles_hash w' p' s') = Inr (JStr (fmt_016x (window_sum dat')))"
    if "length dat' = length dat"
    using generate_hash_ok[OF assms(2) _ assms(4)] assms(5) that by simp
  have one: "fst (generate_opensubtitles_hash w' p' s') = fst (generate_opensubtitles_hash w p s)"
    if "length dat' = length dat" "take 65536 dat' = take 65536 dat"
      "drop (length dat - 65536) dat' = drop (length dat - 65536) dat"
    using window_sum_windows[OF assms(5) that] g g'[OF that(1)] by simp
  have two: "fst (generate_opensubtitles_hash w' p' s') \<noteq> fst (generate_opensubtitles_hash w p s)"
    if h: "i < 65536 \<or> (length dat - 65536 \<le> i \<and> i < length dat)" "b \<noteq> dat ! i" "dat' = dat[i := b]"
  proof
    assume "fst (generate_opensubtitles_hash w' p' s') = fst (generate_opensubtitles_hash w p s)"
    with g g' h(3) have "fmt_016x (window_sum (dat[i := b])) = fmt_016x (window_sum dat)"
      by simp
    then have "window_sum (dat[i := b]) = window_sum dat"
      using window_sum_range[of dat] window_sum_range[of "dat[i := b]"]
      by (intro fmt_016x_inj) simp_all
    with window_sum_window_change[OF assms(5) h(1,2)] show False by simp
  qed
  have three: "fst (generate_opensubtitles_hash w' p' s') = fst (generate_opensubtitles_hash w p s)"
    if "65536 \<le> i" "i < length dat - 65536" "dat' = dat[i := b]"
    using window_sum_middle[OF that(1,2), of b] g g' that(3) by simp
  from one two three show ?thesis by blast
qed

text \<open>
  Two copies of a file of zeros agree; setting byte 5 to 1 changes the fingerprint;
  setting byte 100000 of a 200000-byte file does not.
\<close>

theorem C2_fingerprint_windows_witness:
  "fst (generate_opensubtitles_hash quiet_world ''/n/copy.avi'' (disk_with ''/n/copy.avi'' (replicate 131072 0)))
     = fst (generate_opensubtitles_hash quiet_world ''/m/film.mkv'' (disk_with ''/m/film.mkv'' (replicate 131072 0)))
   \<and> fst (generate_opensubtitles_hash quiet_world ''/m/film.mkv''
            (disk_with ''/m/film.mkv'' ((replicate 131072 0)[5 := 1])))
     \<noteq> fst (generate_opensubtitles_hash quiet_world ''/m/film.mkv'' (disk_with ''/m/film.mkv'' (replicate 131072 0)))
   \<and> fst (generate_opensubtitles_hash quiet_world ''/m/film.mkv''
            (disk_with ''/m/film.mkv'' ((replicate 200000 0)[100000 := 9])))
     = fst (generate_opensubtitles_hash quiet_world ''/m/film.mkv'' (disk_with ''/m/film.mkv'' (replicate 200000 0)))"
proof -
  have f: "fs (disk_with q d) q = Some d" for q d by (simp add: disk_with_def)
  have r: "\<not> read_fault quiet_world q" for q by (simp add: quiet_world_def)
  have l1: "131072 \<le> length (replicate 131072 (0::byte))" by simp
  have l2: "131072 \<le> length (replicate 200000 (0::byte))" by simp
  note A = C2_fingerprint_windows[where i = 0 and b = 0 and p = "''/m/film.mkv''"
      and p' = "''/n/copy.avi''" and dat = "replicate 131072 0" and dat' = "replicate 131072 0",
      OF f f r r l1, THEN conjunct1]
  note B = C2_fingerprint_windows[where i = 5 and b = 1 and p = "''/m/film.mkv''"
      and p' = "''/m/film.mkv''" and dat = "replicate 131072 0"
      and dat' = "(replicate 131072 0)[5 := 1]",
      OF f f r r l1, THEN conjunct2, THEN conjunct1]
  note C = C2_fingerprint_windows[where i = 100000 and b = 9 and p = "''/m/film.mkv''"
      and p' = "''/m/film.mkv''" and dat = "replicate 200000 0"
      and dat' = "(replicate 200000 0)[100000 := 9]",
      OF f f r r l2, THEN conjunct2, THEN conjunct2]
  have a: "fst (generate_opensubtitles_hash quiet_world ''/n/copy.avi'' (disk_with ''/n/copy.avi'' (replicate 131072 0)))
     = fst (generate_opensubtitles_hash quiet_world ''/m/film.mkv'' (disk_with ''/m/film.mkv'' (replicate 131072 0)))"
    by (rule A[rule_format]) simp
  have nb: "(1::byte) \<noteq> replicate 131072 0 ! 5" by simp
  have b: "fst (generate_opensubtitles_hash quiet_world ''/m/film.mkv''
            (disk_with ''/m/film.mkv'' ((replicate 131072 0)[5 := 1])))
     \<noteq> fst (generate_opensubtitles_hash quiet_world ''/m/film.mkv'' (disk_with ''/m/film.mkv'' (replicate 131072 0)))"
    by (rule B[rule_format]) (simp add: nb)
  have c: "fst (generate_opensubtitles_hash quiet_world ''/m/film.mkv''
            (disk_with ''/m/film.mkv'' ((replicate 200000 0)[100000 := 9])))
     = fst (generate_opensubtitles_hash quiet_world ''/m/film.mkv'' (disk_with ''/m/film.mkv'' (replicate 200000 0)))"
    by (rule C[rule_format]) simp
  from a b c show ?thesis by blast
qed

text \<open>The decoder of the specification agrees with \<open>struct.unpack\<close> on eight bytes.\<close>

lemma le_uint_snoc: "le_uint (xs @ [b]) = le_uint xs + uint b * 256 ^ length xs"
  by (induction xs) (simp_all add: algebra_simps)

lemma le_uint_bounds: "0 \<le> le_uint xs \<and> le_uint xs < 256 ^ length xs"
proof (induction xs)
  case Nil show ?case by simp
next
  case (Cons x xs)
  have "uint x < 256" "0 \<le> uint x" using uint_lt2p[of x] by simp_all
  with Cons show ?case by simp
qed

lemma le_uint_index_sum: "le_uint xs = (\<Sum>i<length xs. uint (xs ! i) * 256 ^ i)"
proof (induction xs rule: rev_induct)
  case Nil show ?case by simp
next
  case (snoc b xs)
  have "(\<Sum>i<length xs. uint ((xs @ [b]) ! i) * 256 ^ i) = (\<Sum>i<length xs. uint (xs ! i) * 256 ^ i)"
    by (intro sum.cong) (simp_all add: nth_append)
  with snoc show ?case by (simp add: le_uint_snoc)
qed

lemma spec_le_s64_eq:
  assumes "length bs = 8"
  shows "spec_le_s64 bs = le_s64 bs"
proof -
  have pw: "(2::int) ^ (8 * i) = 256 ^ i" for i
    by (simp add: power_mult)
  have u: "le_uint bs = (\<Sum>i<8. uint (bs ! i) * 2 ^ (8 * i))"
    using le_uint_index_sum[of bs] assms by (simp only: pw)
  obtain xs b where bs: "bs = xs @ [b]" using assms by (cases bs rule: rev_cases) auto
  then have lx: "length xs = 7" using assms by simp
  have b7: "bs ! 7 = b" using bs lx by (simp add: nth_append)
  have d: "le_uint bs = le_uint xs + uint b * 256 ^ 7" using bs lx by (simp add: le_uint_snoc)
  have lo: "0 \<le> le_uint xs" "le_uint xs < 256 ^ 7" using le_uint_bounds[of xs] lx by simp_all
  have sign: "2 ^ 63 \<le> le_uint bs \<longleftrightarrow> 128 \<le> uint b"
    using d lo by auto
  show ?thesis
    unfolding spec_le_s64_def le_s64_def Let_def u[symmetric] b7 sign by simp
qed

lemma spec_fingerprint_window_sum:
  assumes "131072 \<le> length bs"
  shows "spec_fingerprint bs = window_sum bs"
proof -
  have a: "spec_le_s64 (take 8 (drop (8 * k) bs)) = le_s64 (take 8 (drop (8 * k) bs))"
    if "k < 8192" for k
    using that assms by (intro spec_le_s64_eq) simp
  have b: "spec_le_s64 (take 8 (drop (length bs - 65536 + 8 * k) bs)) =
           le_s64 (take 8 (drop (length bs - 65536 + 8 * k) bs))"
    if "k < 8192" for k
    using that assms by (intro spec_le_s64_eq) simp
  have "(\<Sum>k<8192. spec_le_s64 (take 8 (drop (8 * k) bs))) = (\<Sum>k<8192. le_s64 (take 8 (drop (8 * k) bs)))"
    by (intro sum.cong refl a) simp
  moreover have "(\<Sum>k<8192. spec_le_s64 (take 8 (drop (length bs - 65536 + 8 * k) bs))) =
                 (\<Sum>k<8192. le_s64 (take 8 (drop (length bs - 65536 + 8 * k) bs)))"
    by (intro sum.cong refl b) simp
  ultimately show ?thesis by (simp only: spec_fingerprint_def window_sum_def)
qed

text \<open>
  Claim C1. For a video file in the file system, \<open>generate_opensubtitles_hash\<close>
  returns None when the file is shorter than 131072 bytes; when it has at least 131072
  bytes and the file can be read, it returns the fingerprint of the specification (the
  length, the first 8192 and the last 8192 little-endian signed 64-bit integers, summed
  modulo \<open>2 ^ 64\<close>, with the specification's own reading of such an integer) as a string
  of exactly 16 lowercase hexadecimal digits whose value is that sum.
\<close>

theorem C1_fingerprint:
  "fs s video_path = Some dat \<Longrightarrow>
   (length dat < 131072 \<longrightarrow> fst (generate_opensubtitles_hash w video_path s) = Inr JNull) \<and>
   (131072 \<le> length dat \<and> \<not> read_fault w video_path \<longrightarrow>
      fst (generate_opensubtitles_hash w video_path s) = Inr (JStr (fmt_016x (spec_fingerprint dat))) \<and>
      length (fmt_016x (spec_fingerprint dat)) = 16 \<and>
      set (fmt_016x (spec_fingerprint dat)) \<subseteq> set ''0123456789abcdef'' \<and>
      int (hex_value (fmt_016x (spec_fingerprint dat))) = spec_fingerprint dat)"
proof -
  assume f: "fs s video_path = Some dat"
  have r: "0 \<le> window_sum dat" "window_sum dat < 2 ^ 64"
    using window_sum_range[of dat] by simp_all
  note p = fmt_016x_props[OF r]
  have small: "fst (generate_opensubtitles_hash w video_path s) = Inr JNull"
    if "length dat < 131072"
    using generate_hash_small[OF f that, of w] by simp
  have big: "fst (generate_opensubtitles_hash w video_path s) =
      Inr (JStr (fmt_016x (spec_fingerprint dat))) \<and>
      length (fmt_016x (spec_fingerprint dat)) = 16 \<and>
      set (fmt_016x (spec_fingerprint dat)) \<subseteq> set ''0123456789abcdef'' \<and>
      int (hex_value (fmt_016x (spec_fingerprint dat))) = spec_fingerprint dat"
    if "131072 \<le> length dat" "\<not> read_fault w video_path"
    using generate_hash_ok[OF f that] p
    unfolding spec_fingerprint_window_sum[OF that(1)] by simp
  from small big show ?thesis by blast
qed

lemma usum_zeros: "usum n (replicate m 0) pos = 0"
  by (induction n arbitrary: pos) (simp_all add: le_uint_zeros)

lemma ufp_sample: "ufp sample_file = 216172782113915393"
proof -
  let ?z = "replicate 131072 (0::byte)"
  let ?a = "?z[0 := 1]"
  let ?b = "?a[1 := 2]"
  have z: "ufp ?z = 131072" by (simp add: ufp_def usum_zeros)
  have "ufp ?a = ufp ?z + (uint (1::byte) - uint (?z ! 0)) * 256 ^ ((0 - (if (0::nat) < 65536 then 0 else length ?z - 65536)) mod 8)"
    by (rule ufp_window_change) simp_all
  then have a: "ufp ?a = 131073" using z by simp
  have "ufp ?b = ufp ?a + (uint (2::byte) - uint (?a ! 1)) * 256 ^ ((1 - (if (1::nat) < 65536 then 0 else length ?a - 65536)) mod 8)"
    by (rule ufp_window_change) simp_all
  then have b: "ufp ?b = 131585" using a by simp
  have "ufp (?b[131071 := 3]) = ufp ?b + (uint (3::byte) - uint (?b ! 131071)) *
       256 ^ ((131071 - (if (131071::nat) < 65536 then 0 else length ?b - 65536)) mod 8)"
    by (rule ufp_window_change) simp_all
  then show ?thesis using b by (simp add: sample_file_def)
qed

lemma spec_fingerprint_sample: "spec_fingerprint sample_file = 216172782113915393"
proof -
  have "131072 \<le> length sample_file" by (simp add: sample_file_def)
  from spec_fingerprint_window_sum[OF this] show ?thesis
    by (simp add: window_sum_ufp ufp_sample)
qed

lemma fmt_sample: "fmt_016x 216172782113915393 = ''0300000000020201''"
  by (simp add: fmt_016x_def zfill_def to_hex_small to_hex_large hex_digit_def)

text \<open>
  A file of three bytes has no fingerprint. The sample file has the length 131072, the
  first integer \<open>0x0201\<close> and the last integer \<open>0x0300000000000000\<close>: its fingerprint
  is \<open>0300000000020201\<close>.
\<close>

theorem C1_fingerprint_witness:
  "fst (generate_opensubtitles_hash quiet_world ''/m/film.mkv'' (disk_with ''/m/film.mkv'' [1, 2, 3])) = Inr JNull
   \<and> fst (generate_opensubtitles_hash quiet_world ''/m/film.mkv'' (disk_with ''/m/film.mkv'' sample_file))
       = Inr (JStr ''0300000000020201'')"
proof -
  have a: "fs (disk_with ''/m/film.mkv'' [1, 2, 3]) ''/m/film.mkv'' = Some [1, 2, 3]"
    by (simp add: disk_with_def)
  have b: "fs (disk_with ''/m/film.mkv'' sample_file) ''/m/film.mkv'' = Some sample_file"
    by (simp add: disk_with_def)
  have r: "\<not> read_fault quiet_world ''/m/film.mkv''" by (simp add: quiet_world_def)
  have l: "131072 \<le> length sample_file" by (simp add: sample_file_def)
  have s: "length [1, 2, 3::byte] < 131072" by simp
  from C1_fingerprint[OF a, of quiet_world] s
  have one: "fst (generate_opensubtitles_hash quiet_world ''/m/film.mkv'' (disk_with ''/m/film.mkv'' [1, 2, 3])) = Inr JNull"
    by blast
  from C1_fingerprint[OF b, of quiet_world] l r
  have "fst (generate_opensubtitles_hash quiet_world ''/m/film.mkv'' (disk_with ''/m/film.mkv'' sample_file))
       = Inr (JStr (fmt_016x (spec_fingerprint sample_file)))" by blast
  then have two: "fst (generate_opensubtitles_hash quiet_world ''/m/film.mkv'' (disk_with ''/m/film.mkv'' sample_file))
       = Inr (JStr ''0300000000020201'')"
    by (simp only: spec_fingerprint_sample fmt_sample)
  from one two show ?thesis by blast
qed

section \<open>The selector\<close>

lemma key_wf: "wf_record r \<Longrightarrow> download_count_key r = Inr (JInt (count_of r))"
proof (cases r)
  case (JObj kvs)
  assume wf: "wf_record r"
  show ?thesis
  proof (cases "map_of kvs ''attributes''")
    case None
    then show ?thesis using JObj by (simp add: download_count_key_def)
  next
    case (Some a)
    with wf JObj obtain avs where a: "a = JObj avs" by (cases a) simp_all
    show ?thesis
    proof (cases "map_of avs ''download_count''")
      case None
      then show ?thesis using JObj Some a by (simp add: download_count_key_def)
    next
      case (Some c)
      with wf JObj \<open>map_of kvs ''attributes'' = Some a\<close> a obtain i where "c = JInt i"
        by (cases c) simp_all
      then show ?thesis using JObj Some \<open>map_of kvs ''attributes'' = Some a\<close> a
        by (simp add: download_count_key_def)
    qed
  qed
qed simp_all


lemma max_loop_scan:
  assumes "\<forall>r\<in>set (pre @ rest). wf_record r" "k < length pre"
    "\<forall>j<length pre. count_of (pre ! j) \<le> count_of (pre ! k)"
    "\<forall>j<k. count_of (pre ! j) < count_of (pre ! k)"
  shows "\<exists>i<length (pre @ rest).
           max_loop (pre ! k) (JInt (count_of (pre ! k))) rest = Inr ((pre @ rest) ! i) \<and>
           (\<forall>j<length (pre @ rest). count_of ((pre @ rest) ! j) \<le> count_of ((pre @ rest) ! i)) \<and>
           (\<forall>j<i. count_of ((pre @ rest) ! j) < count_of ((pre @ rest) ! i))"
  using assms
proof (induction rest arbitrary: pre k)
  case Nil
  then show ?case by auto
next
  case (Cons x rest)
  let ?pre = "pre @ [x]"
  have wfx: "wf_record x" using Cons.prems(1) by simp
  have wf': "\<forall>r\<in>set (?pre @ rest). wf_record r" using Cons.prems(1) by simp
  have app: "?pre @ rest = pre @ x # rest" by simp
  show ?case
  proof (cases "count_of (pre ! k) < count_of x")
    case True
    have k': "length pre < length ?pre" by simp
    have nk: "?pre ! length pre = x" by simp
    have a: "\<forall>j<length ?pre. count_of (?pre ! j) \<le> count_of (?pre ! length pre)"
      using Cons.prems(3) True by (auto simp: nth_append less_Suc_eq)
    have b: "\<forall>j<length pre. count_of (?pre ! j) < count_of (?pre ! length pre)"
      using Cons.prems(3) True by (auto simp: nth_append intro: le_less_trans)
    from Cons.IH[OF wf' k' a b] show ?thesis
      unfolding nk app using True by (simp add: key_wf[OF wfx])
  next
    case False
    have k': "k < length ?pre" using Cons.prems(2) by simp
    have nk: "?pre ! k = pre ! k" using Cons.prems(2) by (simp add: nth_append)
    have a: "\<forall>j<length ?pre. count_of (?pre ! j) \<le> count_of (?pre ! k)"
      using Cons.prems(2,3) False by (auto simp: nth_append less_Suc_eq)
    have b: "\<forall>j<k. count_of (?pre ! j) < count_of (?pre ! k)"
      using Cons.prems(2,4) by (auto simp: nth_append)
    from Cons.IH[OF wf' k' a b] show ?thesis
      unfolding nk app using False by (simp add: key_wf[OF wfx])
  qed
qed

lemma py_max_first_maximal:
  assumes "\<forall>r\<in>set xs. wf_record r" "xs \<noteq> []"
  shows "\<exists>i<length xs. py_max xs = Inr (xs ! i) \<and>
           (\<forall>j<length xs. count_of (xs ! j) \<le> count_of (xs ! i)) \<and>
           (\<forall>j<i. count_of (xs ! j) < count_of (xs ! i))"
proof -
  from assms(2) obtain x rest where xs: "xs = x # rest" by (cases xs) auto
  have wfx: "wf_record x" using assms(1) xs by simp
  have "\<exists>i<length ([x] @ rest).
           max_loop ([x] ! 0) (JInt (count_of ([x] ! 0))) rest = Inr (([x] @ rest) ! i) \<and>
           (\<forall>j<length ([x] @ rest). count_of (([x] @ rest) ! j) \<le> count_of (([x] @ rest) ! i)) \<and>
           (\<forall>j<i. count_of (([x] @ rest) ! j) < count_of (([x] @ rest) ! i))"
    using assms(1) xs by (intro max_loop_scan) simp_all
  then show ?thesis unfolding xs by (simp add: key_wf[OF wfx])
qed

lemma get_best_list: "xs \<noteq> [] \<Longrightarrow> get_best_subtitle (JArr xs) = py_max xs"
  by (simp add: get_best_subtitle_def)

lemma wf_not_null: "wf_record r \<Longrightarrow> r \<noteq> JNull"
  by (cases r) simp_all

text \<open>
  Claim C3. For a list of candidate records (objects whose attributes and download count,
  where present, have the documented types), \<open>get_best_subtitle\<close> returns None exactly
  when the list is empty; otherwise it returns the record at the first position whose
  download count is maximal over the list: no record has a greater count and every earlier
  record has a smaller one. A missing count is 0.
\<close>

theorem C3_select_best:
  assumes "\<forall>r\<in>set xs. wf_record r"
  shows "(get_best_subtitle (JArr xs) = Inr JNull \<longleftrightarrow> xs = []) \<and>
         (xs \<noteq> [] \<longrightarrow>
            (\<exists>i<length xs. get_best_subtitle (JArr xs) = Inr (xs ! i) \<and>
               (\<forall>j<length xs. count_of (xs ! j) \<le> count_of (xs ! i)) \<and>
               (\<forall>j<i. count_of (xs ! j) < count_of (xs ! i))))"
proof (cases "xs = []")
  case True
  then show ?thesis by (simp add: get_best_subtitle_def)
next
  case False
  from py_max_first_maximal[OF assms False] obtain i where i: "i < length xs"
    "py_max xs = Inr (xs ! i)"
    "\<forall>j<length xs. count_of (xs ! j) \<le> count_of (xs ! i)"
    "\<forall>j<i. count_of (xs ! j) < count_of (xs ! i)" by blast
  have "xs ! i \<noteq> JNull" using assms i(1) by (intro wf_not_null) simp
  then have "get_best_subtitle (JArr xs) \<noteq> Inr JNull"
    using i(2) by (simp add: get_best_list[OF False])
  moreover have "\<exists>i<length xs. get_best_subtitle (JArr xs) = Inr (xs ! i) \<and>
               (\<forall>j<length xs. count_of (xs ! j) \<le> count_of (xs ! i)) \<and>
               (\<forall>j<i. count_of (xs ! j) < count_of (xs ! i))"
    using i unfolding get_best_list[OF False] by blast
  ultimately show ?thesis using False by blast
qed

lemma four_records_wf: "\<forall>r\<in>set four_records. wf_record r"
  by (simp add: four_records_def rec_with_def)

lemma four_records_counts:
  "length four_records = 4" "count_of (four_records ! 0) = 3" "count_of (four_records ! 1) = 7"
  "count_of (four_records ! Suc 0) = 7"
  "count_of (four_records ! 2) = 7" "count_of (four_records ! 3) = 1"
  by (simp_all add: four_records_def rec_with_def)

lemma lt4_cases: "i < (4::nat) \<Longrightarrow> i = 0 \<or> i = 1 \<or> i = 2 \<or> i = 3"
  by arith

text \<open>
  The empty list gives None; for the download counts 3, 7, 7, 1 the result is the second
  record, the first one with count 7.
\<close>

theorem C3_select_best_witness:
  "get_best_subtitle (JArr []) = Inr JNull \<and>
   get_best_subtitle (JArr four_records) = Inr (rec_with ''b'' 7)"
proof -
  have e: "\<forall>r\<in>set ([]::json list). wf_record r" by simp
  have a: "get_best_subtitle (JArr []) = Inr JNull" using C3_select_best[OF e] by simp
  have ne: "four_records \<noteq> []" by (simp add: four_records_def)
  from C3_select_best[OF four_records_wf] ne obtain i where i: "i < length four_records"
    "get_best_subtitle (JArr four_records) = Inr (four_records ! i)"
    "\<forall>j<length four_records. count_of (four_records ! j) \<le> count_of (four_records ! i)"
    "\<forall>j<i. count_of (four_records ! j) < count_of (four_records ! i)" by blast
  from i(1) have c: "i = 0 \<or> i = 1 \<or> i = 2 \<or> i = 3"
    by (intro lt4_cases) (simp add: four_records_counts)
  have "(1::nat) < length four_records" by (simp add: four_records_counts)
  with i(3) have m: "count_of (four_records ! 1) \<le> count_of (four_records ! i)" by blast
  have "i = 1"
  proof (rule ccontr)
    assume n: "i \<noteq> 1"
    with c m have "i = 2" by (auto simp: four_records_counts)
    with i(4) have "count_of (four_records ! 1) < count_of (four_records ! 2)" by simp
    then show False by (simp add: four_records_counts)
  qed
  with i(2) have "get_best_subtitle (JArr four_records) = Inr (rec_with ''b'' 7)"
    by (simp add: four_records_def)
  with a show ?thesis by simp
qed



section \<open>The download\<close>

lemma splitext_film: "splitext ''/m/film.mkv'' = (''/m/film'', ''.mkv'')"
  by (simp add: splitext_def basename_def)

lemma py_get_Inr: "py_get v k d = Inr x \<Longrightarrow> \<exists>kvs. v = JObj kvs \<and> x = (case map_of kvs k of Some y \<Rightarrow> y | None \<Rightarrow> d)"
  by (cases v) auto

lemma truthy_list: "truthy v \<Longrightarrow> is_list v \<Longrightarrow> \<exists>x xs. v = JArr (x # xs)"
  by (cases v) (auto simp: neq_Nil_conv)

lemma first_file_id_cases:
  assumes "first_file_id r = Inr (Some fid)"
  shows "\<exists>f0 rest. file_list r = f0 # rest \<and> py_getitem f0 ''file_id'' = Inr fid"
proof -
  from assms obtain a where a: "py_get r ''attributes'' (JObj []) = Inr a"
    by (auto simp: first_file_id_def split: sum.splits)
  from assms a obtain files where f: "py_get a ''files'' JNull = Inr files"
    by (auto simp: first_file_id_def split: sum.splits)
  from assms a f have t: "truthy files" "is_list files"
    by (auto simp: first_file_id_def split: if_splits)
  from truthy_list[OF t] obtain f0 rest where fl: "files = JArr (f0 # rest)" by blast
  from assms a f fl have g: "py_getitem f0 ''file_id'' = Inr fid"
    by (auto simp: first_file_id_def split: sum.splits if_splits)
  from py_get_Inr[OF a] obtain kvs where r: "r = JObj kvs"
    "a = (case map_of kvs ''attributes'' of Some y \<Rightarrow> y | None \<Rightarrow> JObj [])" by blast
  from py_get_Inr[OF f] obtain avs where av: "a = JObj avs"
    "files = (case map_of avs ''files'' of Some y \<Rightarrow> y | None \<Rightarrow> JNull)" by blast
  have "file_list r = f0 # rest"
    using r av fl by (auto split: option.splits)
  with g show ?thesis by blast
qed

lemma first_file_id_none:
  assumes "wf_record r" "file_list r = []"
  shows "first_file_id r = Inr None"
proof -
  from assms(1) obtain kvs where r: "r = JObj kvs" by (cases r) auto
  show ?thesis
  proof (cases "map_of kvs ''attributes''")
    case None
    then show ?thesis using r by (simp add: first_file_id_def)
  next
    case (Some a)
    with assms(1) r obtain avs where a: "a = JObj avs" by (cases a) auto
    show ?thesis
    proof (cases "map_of avs ''files''")
      case None
      then show ?thesis using r Some a by (simp add: first_file_id_def)
    next
      case (Some files)
      show ?thesis
      proof (cases "truthy files \<and> is_list files")
        case True
        with truthy_list obtain x xs where "files = JArr (x # xs)" by blast
        with assms(2) r a Some \<open>map_of kvs ''attributes'' = Some a\<close> show ?thesis by simp
      next
        case False
        then show ?thesis using r a Some \<open>map_of kvs ''attributes'' = Some a\<close>
          by (auto simp: first_file_id_def)
      qed
    qed
  qed
qed

text \<open>All the ways in which the try block of the download can end.\<close>

lemma download_try_outcomes:
  assumes "download_try w fid vp s = (res, s')"
  defines "target \<equiv> fst (splitext vp) @ ''.srt''"
  defines "post \<equiv> PostDownload (JObj [(''file_id'', fid)])"
  shows
    "(resolve_download w fid = None \<and> fs s' = fs s \<and> new_calls s s' = [post] \<and>
        ((\<exists>e. res = Inl e \<and> new_log s s' = [RequestingLink] \<and>
              (http_download w (JObj [(''file_id'', fid)]) = Inl e \<or> e = AttributeError)) \<or>
         (res = Inr () \<and> new_log s s' = [RequestingLink, NoDownloadLink])))
     \<or> (\<exists>l. resolve_download w fid = Some l \<and> new_calls s s' = [post, GetLink l] \<and>
          ((\<exists>e. http_fetch w l = Inl e \<and> res = Inl e \<and> fs s' = fs s \<and>
                new_log s s' = [RequestingLink, Downloading]) \<or>
           (\<exists>content. http_fetch w l = Inr content \<and>
              ((save_fault w = OpenFails \<and> res = Inl OSError \<and> fs s' = fs s \<and>
                  new_log s s' = [RequestingLink, Downloading]) \<or>
               (\<exists>n. save_fault w = WriteFailsAfter n \<and> res = Inl OSError \<and>
                  fs s' = (fs s)(target \<mapsto> take n content) \<and>
                  new_log s s' = [RequestingLink, Downloading]) \<or>
               (save_fault w = NoFault \<and> res = Inr () \<and> fs s' = (fs s)(target \<mapsto> content) \<and>
                  new_log s s' = [RequestingLink, Downloading, SavedTo (basename target)])))))"
proof (cases "http_download w (JObj [(''file_id'', fid)])")
  case (Inl e)
  then show ?thesis using assms(1)
    by (auto simp: download_try_def resolve_download_def Let_def post_def new_calls_def new_log_def
        logging_def issue_def)
next
  case (Inr info)
  show ?thesis
  proof (cases "py_get info ''link'' JNull")
    case (Inl e)
    then have "e = AttributeError" by (cases info) auto
    with Inl Inr show ?thesis using assms(1)
      by (auto simp: download_try_def resolve_download_def Let_def post_def new_calls_def new_log_def
          logging_def issue_def)
  next
    case link: (Inr l)
    show ?thesis
    proof (cases "truthy l")
      case False
      with link Inr show ?thesis using assms(1)
        by (auto simp: download_try_def resolve_download_def Let_def post_def new_calls_def
            new_log_def logging_def issue_def)
    next
      case True
      have rd: "resolve_download w fid = Some l"
        using Inr link True by (simp add: resolve_download_def)
      show ?thesis
      proof (cases "http_fetch w l")
        case (Inl e)
        with link Inr True rd show ?thesis using assms(1)
          by (auto simp: download_try_def Let_def post_def new_calls_def
              new_log_def logging_def issue_def)
      next
        case (Inr content)
        with link \<open>http_download w (JObj [(''file_id'', fid)]) = Inr info\<close> True rd
        show ?thesis using assms(1)
          by (cases "save_fault w")
            (auto simp: download_try_def Let_def post_def target_def new_calls_def save_file_def
              new_log_def logging_def issue_def)
      qed
    qed
  qed
qed

lemma download_wrap:
  assumes "download_and_save_subtitle w r vp s = (res, s')" "first_file_id r = Inr (Some fid)"
  shows "\<exists>res0 s0. download_try w fid vp s = (res0, s0) \<and> fs s' = fs s0 \<and> calls s' = calls s0 \<and>
           (case res0 of
              Inr u \<Rightarrow> res = Inr () \<and> log s' = log s0
            | Inl e \<Rightarrow>
                if e = RequestException then res = Inr () \<and> log s' = log s0 @ [DownloadFailed e]
                else if is_Exception e then res = Inr () \<and> log s' = log s0 @ [SaveError e]
                else res = Inl e \<and> log s' = log s0)"
proof -
  obtain res0 s0 where t: "download_try w fid vp s = (res0, s0)" by (cases "download_try w fid vp s")
  show ?thesis using assms t
    by (cases res0) (auto simp: download_and_save_subtitle_def logging_def split: if_splits)
qed

lemma new_calls_eq: "calls s' = calls s0 \<Longrightarrow> new_calls s s' = new_calls s s0"
  by (simp add: new_calls_def)

lemma new_log_eq: "log s' = log s0 \<Longrightarrow> new_log s s' = new_log s s0"
  by (simp add: new_log_def)

lemma new_log_app:
  "log s' = log s0 @ evs \<Longrightarrow> length (log s) \<le> length (log s0) \<Longrightarrow> new_log s s' = new_log s s0 @ evs"
  by (simp add: new_log_def)

lemma download_try_log_mono:
  "download_try w fid vp s = (res, s') \<Longrightarrow> length (log s) \<le> length (log s')"
  by (auto simp: download_try_def Let_def logging_def issue_def save_file_def
      split: sum.splits if_splits write_fault.splits)

text \<open>
  Claim C8. A run of \<open>download_and_save_subtitle\<close> posts at most one download request,
  and that request carries the \<open>file_id\<close> of the first descriptor of the record's file
  list. When the record has no file descriptor, and when the resolution of the link gives
  nothing, the function returns normally with an error report and without the report of
  a saved file (DONE_ERROR), the file system is left exactly as it was, and no fetch is
  issued. The HTTP library is assumed to raise exceptions only, never \<open>SystemExit\<close>.
\<close>

theorem C8_download_first_descriptor:
  assumes run: "download_and_save_subtitle w r video_path s = (res, s')"
    and lib: "\<forall>p e. http_download w p = Inl e \<longrightarrow> is_Exception e"
  shows "(filter is_post (new_calls s s') = [] \<or>
          (\<exists>f0 rest fid. file_list r = f0 # rest \<and> py_getitem f0 ''file_id'' = Inr fid \<and>
             filter is_post (new_calls s s') = [PostDownload (JObj [(''file_id'', fid)])])) \<and>
         (wf_record r \<and> file_list r = [] \<longrightarrow>
            res = Inr () \<and> done_error s s' \<and> fs s' = fs s \<and> new_calls s s' = []) \<and>
         (\<forall>fid. first_file_id r = Inr (Some fid) \<and> resolve_download w fid = None \<longrightarrow>
            res = Inr () \<and> done_error s s' \<and> fs s' = fs s \<and> filter is_fetch (new_calls s s') = [])"
proof -
  have none: "res = Inr () \<and> done_error s s' \<and> fs s' = fs s \<and> new_calls s s' = []"
    if "first_file_id r = Inr None"
    using run that
    by (auto simp: download_and_save_subtitle_def done_error_def new_log_def new_calls_def logging_def)
  have A: "filter is_post (new_calls s s') = [] \<or>
          (\<exists>f0 rest fid. file_list r = f0 # rest \<and> py_getitem f0 ''file_id'' = Inr fid \<and>
             filter is_post (new_calls s s') = [PostDownload (JObj [(''file_id'', fid)])])"
  proof (cases "first_file_id r")
    case (Inl e)
    then show ?thesis using run by (auto simp: download_and_save_subtitle_def new_calls_def)
  next
    case (Inr found)
    show ?thesis
    proof (cases found)
      case None
      with Inr none show ?thesis by simp
    next
      case (Some fid)
      from download_wrap[OF run Inr[unfolded Some]] obtain res0 s0 where
        t: "download_try w fid video_path s = (res0, s0)" and c: "calls s' = calls s0" by blast
      from download_try_outcomes[OF t] have
        "filter is_post (new_calls s s0) = [PostDownload (JObj [(''file_id'', fid)])]" by auto
      with first_file_id_cases[OF Inr[unfolded Some]] new_calls_eq[OF c] show ?thesis by auto
    qed
  qed
  have B: "res = Inr () \<and> done_error s s' \<and> fs s' = fs s \<and> new_calls s s' = []"
    if "wf_record r" "file_list r = []"
    using none first_file_id_none[OF that] by simp
  have C: "res = Inr () \<and> done_error s s' \<and> fs s' = fs s \<and> filter is_fetch (new_calls s s') = []"
    if f: "first_file_id r = Inr (Some fid)" and a: "resolve_download w fid = None" for fid
  proof -
    from download_wrap[OF run f] obtain res0 s0 where
      t: "download_try w fid video_path s = (res0, s0)" and fs: "fs s' = fs s0"
      and c: "calls s' = calls s0" and w: "case res0 of
              Inr u \<Rightarrow> res = Inr () \<and> log s' = log s0
            | Inl e \<Rightarrow>
                if e = RequestException then res = Inr () \<and> log s' = log s0 @ [DownloadFailed e]
                else if is_Exception e then res = Inr () \<and> log s' = log s0 @ [SaveError e]
                else res = Inl e \<and> log s' = log s0" by blast
    note m = download_try_log_mono[OF t]
    from download_try_outcomes[OF t] a have o: "fs s0 = fs s"
      "new_calls s s0 = [PostDownload (JObj [(''file_id'', fid)])]"
      "(\<exists>e. res0 = Inl e \<and> new_log s s0 = [RequestingLink] \<and>
              (http_download w (JObj [(''file_id'', fid)]) = Inl e \<or> e = AttributeError)) \<or>
         (res0 = Inr () \<and> new_log s s0 = [RequestingLink, NoDownloadLink])" by auto
    from o(3) have "res = Inr () \<and> done_error s s'"
    proof
      assume "\<exists>e. res0 = Inl e \<and> new_log s s0 = [RequestingLink] \<and>
              (http_download w (JObj [(''file_id'', fid)]) = Inl e \<or> e = AttributeError)"
      then obtain e where e: "res0 = Inl e" "new_log s s0 = [RequestingLink]"
        "http_download w (JObj [(''file_id'', fid)]) = Inl e \<or> e = AttributeError" by blast
      from e(3) lib have ie: "is_Exception e" by auto
      show ?thesis
      proof (cases "e = RequestException")
        case True
        with w e(1) have "res = Inr ()" "log s' = log s0 @ [DownloadFailed e]" by simp_all
        with new_log_app[OF this(2) m] e(2) show ?thesis by (simp add: done_error_def)
      next
        case False
        with w e(1) ie have "res = Inr ()" "log s' = log s0 @ [SaveError e]" by simp_all
        with new_log_app[OF this(2) m] e(2) show ?thesis by (simp add: done_error_def)
      qed
    next
      assume e: "res0 = Inr () \<and> new_log s s0 = [RequestingLink, NoDownloadLink]"
      with w have "res = Inr ()" "log s' = log s0" by simp_all
      with new_log_eq[OF this(2)] e show ?thesis by (simp add: done_error_def)
    qed
    with fs o(1,2) new_calls_eq[OF c] show ?thesis by simp
  qed
  from A B C show ?thesis by blast
qed

lemma quiet_lib: "\<forall>p e. http_download quiet_world p = Inl e \<longrightarrow> is_Exception e"
  by (simp add: quiet_world_def)

lemma rec_files_id: "first_file_id rec_files = Inr (Some (JInt 42))"
  by (simp add: first_file_id_def rec_files_def)

text \<open>
  A record without files, and a record whose link cannot be resolved, on a disk that
  already holds \<open>/m/film.srt\<close>: the error is reported and the old file stays.
\<close>

theorem C8_download_first_descriptor_witness:
  "fs (snd (download_and_save_subtitle quiet_world bare_record ''/m/film.mkv'' old_disk)) = fs old_disk \<and>
   new_calls old_disk (snd (download_and_save_subtitle quiet_world bare_record ''/m/film.mkv'' old_disk)) = [] \<and>
   done_error old_disk (snd (download_and_save_subtitle quiet_world bare_record ''/m/film.mkv'' old_disk)) \<and>
   fs (snd (download_and_save_subtitle quiet_world rec_files ''/m/film.mkv'' old_disk)) = fs old_disk \<and>
   done_error old_disk (snd (download_and_save_subtitle quiet_world rec_files ''/m/film.mkv'' old_disk)) \<and>
   fs old_disk ''/m/film.srt'' = Some [79, 76, 68]"
proof -
  have wf: "wf_record bare_record \<and> file_list bare_record = []" by (simp add: bare_record_def)
  have rd: "first_file_id rec_files = Inr (Some (JInt 42)) \<and> resolve_download quiet_world (JInt 42) = None"
    by (simp add: rec_files_id resolve_download_def quiet_world_def)
  have p: "download_and_save_subtitle w r v s =
      (fst (download_and_save_subtitle w r v s), snd (download_and_save_subtitle w r v s))" for w r v s
    by simp
  note a = C8_download_first_descriptor[where w = quiet_world and r = bare_record
      and video_path = "''/m/film.mkv''" and s = old_disk, OF p quiet_lib,
      THEN conjunct2, THEN conjunct1, rule_format, OF wf]
  note b = C8_download_first_descriptor[where w = quiet_world and r = rec_files
      and video_path = "''/m/film.mkv''" and s = old_disk, OF p quiet_lib,
      THEN conjunct2, THEN conjunct2, rule_format, OF rd]
  have c: "fs old_disk ''/m/film.srt'' = Some [79, 76, 68]" by (simp add: old_disk_def)
  from a b c show ?thesis by blast
qed

text \<open>
  Claim C4, as amended. \<open>download_and_save_subtitle\<close> touches no path other than
  \<open><video base path>.srt\<close>. Either the complete fetched content lands there with the
  report of a saved file (DONE_DOWNLOADED), or the file system is unchanged, or the write
  failed after \<open>open\<close> had created or truncated the file: then the file holds only the
  bytes written before the fault and the error is reported (DONE_ERROR).
\<close>

theorem C4_save_outcomes:
  assumes run: "download_and_save_subtitle w r video_path s = (res, s')"
  shows "(\<forall>p. p \<noteq> fst (splitext video_path) @ ''.srt'' \<longrightarrow> fs s' p = fs s p) \<and>
         ((\<exists>l content. http_fetch w l = Inr content \<and> res = Inr () \<and> done_downloaded s s' \<and>
              fs s' = (fs s)(fst (splitext video_path) @ ''.srt'' \<mapsto> content))
          \<or> fs s' = fs s
          \<or> (\<exists>n l content. save_fault w = WriteFailsAfter n \<and> http_fetch w l = Inr content \<and>
                res = Inr () \<and> done_error s s' \<and>
                fs s' = (fs s)(fst (splitext video_path) @ ''.srt'' \<mapsto> take n content)))"
proof -
  let ?t = "fst (splitext video_path) @ ''.srt''"
  have main: "(\<exists>l content. http_fetch w l = Inr content \<and> res = Inr () \<and> done_downloaded s s' \<and>
              fs s' = (fs s)(?t \<mapsto> content))
          \<or> fs s' = fs s
          \<or> (\<exists>n l content. save_fault w = WriteFailsAfter n \<and> http_fetch w l = Inr content \<and>
                res = Inr () \<and> done_error s s' \<and> fs s' = (fs s)(?t \<mapsto> take n content))"
  proof (cases "first_file_id r")
    case (Inl e)
    then show ?thesis using run by (auto simp: download_and_save_subtitle_def)
  next
    case (Inr found)
    show ?thesis
    proof (cases found)
      case None
      with Inr show ?thesis using run by (auto simp: download_and_save_subtitle_def logging_def)
    next
      case (Some fid)
      from download_wrap[OF run Inr[unfolded Some]] obtain res0 s0 where
        t: "download_try w fid video_path s = (res0, s0)" and fs: "fs s' = fs s0"
        and w: "case res0 of
              Inr u \<Rightarrow> res = Inr () \<and> log s' = log s0
            | Inl e \<Rightarrow>
                if e = RequestException then res = Inr () \<and> log s' = log s0 @ [DownloadFailed e]
                else if is_Exception e then res = Inr () \<and> log s' = log s0 @ [SaveError e]
                else res = Inl e \<and> log s' = log s0" by blast
      note m = download_try_log_mono[OF t]
      from download_try_outcomes[OF t] consider
          (same) "fs s0 = fs s"
        | (partial) n l content where "save_fault w = WriteFailsAfter n" "http_fetch w l = Inr content"
            "res0 = Inl OSError" "fs s0 = (fs s)(?t \<mapsto> take n content)"
            "new_log s s0 = [RequestingLink, Downloading]"
        | (full) l content where "http_fetch w l = Inr content" "res0 = Inr ()"
            "fs s0 = (fs s)(?t \<mapsto> content)"
            "new_log s s0 = [RequestingLink, Downloading, SavedTo (basename ?t)]"
        by blast
      then show ?thesis
      proof cases
        case same
        with fs show ?thesis by simp
      next
        case partial
        with w have "res = Inr ()" "log s' = log s0 @ [SaveError OSError]" by simp_all
        with new_log_app[OF this(2) m] partial fs show ?thesis
          by (auto simp: done_error_def)
      next
        case full
        with w have "res = Inr ()" "log s' = log s0" by simp_all
        with new_log_eq[OF this(2)] full fs show ?thesis
          by (auto simp: done_downloaded_def)
      qed
    qed
  qed
  from main have "\<forall>p. p \<noteq> ?t \<longrightarrow> fs s' p = fs s p" by auto
  with main show ?thesis by blast
qed

lemma serving_run:
  "download_and_save_subtitle (serving_world\<lparr>save_fault := sf\<rparr>) rec_files ''/m/film.mkv'' old_disk =
     (case sf of
        NoFault \<Rightarrow> (Inr (), \<lparr>fs = (fs old_disk)(''/m/film.srt'' \<mapsto> [49, 10, 72, 105]),
            calls = [PostDownload (JObj [(''file_id'', JInt 42)]), GetLink (JStr ''https://dl/42'')],
            log = [RequestingLink, Downloading, SavedTo ''film.srt'']\<rparr>)
      | OpenFails \<Rightarrow> (Inr (), \<lparr>fs = fs old_disk,
            calls = [PostDownload (JObj [(''file_id'', JInt 42)]), GetLink (JStr ''https://dl/42'')],
            log = [RequestingLink, Downloading, SaveError OSError]\<rparr>)
      | WriteFailsAfter n \<Rightarrow> (Inr (), \<lparr>fs = (fs old_disk)(''/m/film.srt'' \<mapsto> take n [49, 10, 72, 105]),
            calls = [PostDownload (JObj [(''file_id'', JInt 42)]), GetLink (JStr ''https://dl/42'')],
            log = [RequestingLink, Downloading, SaveError OSError]\<rparr>))"
  by (cases sf)
    (simp_all add: download_and_save_subtitle_def rec_files_id download_try_def serving_world_def
      quiet_world_def Let_def save_file_def splitext_film basename_def logging_def issue_def old_disk_def)

text \<open>
  Claim C4 as stated fails: with a write fault after two bytes, the old subtitle file
  \<open>OLD\<close> is replaced by the first two bytes of the fetched text, which is neither the
  old file nor the complete content.
\<close>

theorem C4_partial_write_counterexample:
  "fs old_disk ''/m/film.srt'' = Some [79, 76, 68] \<and>
   http_fetch (serving_world\<lparr>save_fault := WriteFailsAfter 2\<rparr>) (JStr ''https://dl/42'') = Inr [49, 10, 72, 105] \<and>
   fs (snd (download_and_save_subtitle (serving_world\<lparr>save_fault := WriteFailsAfter 2\<rparr>)
              rec_files ''/m/film.mkv'' old_disk)) ''/m/film.srt'' = Some [49, 10]"
  by (simp add: serving_run) (simp add: old_disk_def serving_world_def)

text \<open>
  Without a fault the video file is untouched and the subtitle file holds the whole text.
\<close>

theorem C4_save_outcomes_witness:
  "fs (snd (download_and_save_subtitle (serving_world\<lparr>save_fault := NoFault\<rparr>) rec_files ''/m/film.mkv'' old_disk))
      ''/m/film.mkv'' = Some [0, 1] \<and>
   fs (snd (download_and_save_subtitle (serving_world\<lparr>save_fault := NoFault\<rparr>) rec_files ''/m/film.mkv'' old_disk))
      ''/m/film.srt'' = Some [49, 10, 72, 105]"
proof -
  have p: "download_and_save_subtitle w r v s =
      (fst (download_and_save_subtitle w r v s), snd (download_and_save_subtitle w r v s))" for w r v s
    by simp
  have ne: "''/m/film.mkv'' \<noteq> fst (splitext ''/m/film.mkv'') @ ''.srt''" by (simp add: splitext_film)
  note a = C4_save_outcomes[where w = "serving_world\<lparr>save_fault := NoFault\<rparr>" and r = rec_files
      and video_path = "''/m/film.mkv''" and s = old_disk, OF p,
      THEN conjunct1, rule_format, OF ne]
  have b: "fs old_disk ''/m/film.mkv'' = Some [0, 1]" by (simp add: old_disk_def)
  have c: "fs (snd (download_and_save_subtitle (serving_world\<lparr>save_fault := NoFault\<rparr>) rec_files ''/m/film.mkv'' old_disk))
      ''/m/film.srt'' = Some [49, 10, 72, 105]" by (simp add: serving_run)
  from a b c show ?thesis by simp
qed

section \<open>The orchestrator\<close>

lemma main_script_recursion: "name_is_main w \<Longrightarrow> main d w s = (Inl RecursionError, s)"
proof (induction d rule: less_induct)
  case (less d)
  show ?case
  proof (cases d)
    case 0 then show ?thesis by simp
  next
    case (Suc e)
    show ?thesis
    proof (cases e)
      case 0 with Suc show ?thesis by simp
    next
      case (Suc f)
      have "f < d" using \<open>d = Suc e\<close> Suc by simp
      from less.IH[OF this less.prems] show ?thesis using \<open>d = Suc e\<close> Suc less.prems by simp
    qed
  qed
qed

lemma ext_none:
  "\<not> isfile s (fst (splitext vp) @ ''.srt'') \<Longrightarrow> \<not> isfile s (fst (splitext vp) @ ''.sub'') \<Longrightarrow>
   has_external_subtitles vp s = (False, s)"
  by (simp add: has_external_subtitles_def Let_def)

lemma ext_some:
  "isfile s (fst (splitext vp) @ ''.srt'') \<or> isfile s (fst (splitext vp) @ ''.sub'') \<Longrightarrow>
   \<exists>ev. has_external_subtitles vp s = (True, logging ev s)"
  by (auto simp: has_external_subtitles_def Let_def)

lemma isfile_logging: "isfile (logging ev s) p = isfile s p"
  by (simp add: isfile_def logging_def)














text \<open>
  Claim C6. When the API key is set, the video file exists and a sibling file with the
  extension \<open>.srt\<close> or \<open>.sub\<close> exists, \<open>main\<close> ends in DONE_SKIPPED (exit status 0
  after the report that subtitles exist), issues no request at all and leaves the file
  system as it was. \<open>main\<close> is entered with \<open>__name__\<close> other than \<open>"__main__"\<close> and at
  least two frames, so that its call of \<open>setup_logging\<close> returns.
\<close>

theorem C6_skip_no_network:
  assumes "API_KEY w = Some k" and "k \<noteq> []" and "\<not> name_is_main w"
    and "isfile s (video_arg w)"
    and "isfile s (fst (splitext (video_arg w)) @ ''.srt'') \<or>
         isfile s (fst (splitext (video_arg w)) @ ''.sub'')"
  shows "done_skipped (fst (main (Suc (Suc d)) w s)) s (snd (main (Suc (Suc d)) w s)) \<and>
         new_calls s (snd (main (Suc (Suc d)) w s)) = [] \<and>
         fs (snd (main (Suc (Suc d)) w s)) = fs s"
proof -
  let ?s1 = "logging (Processing (basename (video_arg w))) s"
  have "isfile ?s1 (fst (splitext (video_arg w)) @ ''.srt'') \<or>
        isfile ?s1 (fst (splitext (video_arg w)) @ ''.sub'')"
    using assms(5) by (simp add: isfile_logging)
  from ext_some[OF this] obtain ev where
    e: "has_external_subtitles (video_arg w) ?s1 = (True, logging ev ?s1)" by blast
  have "main (Suc (Suc d)) w s = (Inl (SystemExit 0), logging Skipping (logging ev ?s1))"
    using assms(1,2,3,4) e by (simp add: main_body_def Let_def)
  then show ?thesis
    by (simp add: done_skipped_def new_log_def new_calls_def logging_def)
qed


section \<open>Concrete runs\<close>

lemma film_paths:
  "basename ''/m/film.mkv'' = ''film.mkv''" "splitext ''film.mkv'' = (''film'', ''.mkv'')"
  by (simp_all add: splitext_def basename_def)

text \<open>
  A disk that holds \<open>/m/film.srt\<close> next to the video: the run is skipped.
\<close>

theorem C6_skip_no_network_witness:
  "done_skipped (fst (main (Suc (Suc 0)) quiet_world old_disk)) old_disk
      (snd (main (Suc (Suc 0)) quiet_world old_disk)) \<and>
   new_calls old_disk (snd (main (Suc (Suc 0)) quiet_world old_disk)) = [] \<and>
   fs (snd (main (Suc (Suc 0)) quiet_world old_disk)) = fs old_disk"
proof -
  have a: "API_KEY quiet_world = Some ''key''" "''key'' \<noteq> []" "\<not> name_is_main quiet_world"
    by (simp_all add: quiet_world_def)
  have b: "isfile old_disk (video_arg quiet_world)"
    by (simp add: quiet_world_def old_disk_def isfile_def)
  have c: "isfile old_disk (fst (splitext (video_arg quiet_world)) @ ''.srt'') \<or>
           isfile old_disk (fst (splitext (video_arg quiet_world)) @ ''.sub'')"
    by (simp add: quiet_world_def old_disk_def isfile_def splitext_film)
  show ?thesis by (rule C6_skip_no_network[OF a b c])
qed



text \<open>
  Claim C5 on a system without the probing tool: \<open>ffmpeg.probe\<close> raises
  \<open>FileNotFoundError\<close> from the process launch, which is not an \<open>ffmpeg.Error\<close>;
  \<open>has_embedded_subtitles\<close> lets it through and \<open>main\<close> ends with the uncaught
  exception, exit status 1. An \<open>ffmpeg.Error\<close> is caught and gives False.
\<close>

theorem C5_probe_tool_missing:
  "has_embedded_subtitles no_ffprobe_world ''/m/film.mkv'' new_disk = (Inl FileNotFoundError, new_disk) \<and>
   fst (main (Suc (Suc 0)) no_ffprobe_world new_disk) = Inl FileNotFoundError \<and>
   exit_status (fst (main (Suc (Suc 0)) no_ffprobe_world new_disk)) = 1 \<and>
   fst (has_embedded_subtitles (quiet_world\<lparr>probe := (\<lambda>p. Inl FfmpegError)\<rparr>) ''/m/film.mkv'' new_disk)
     = Inr False"
proof -
  have a: "has_embedded_subtitles no_ffprobe_world p s = (Inl FileNotFoundError, s)" for p s
    by (simp add: has_embedded_subtitles_def embedded_try_def no_ffprobe_world_def)
  have b: "main (Suc (Suc 0)) no_ffprobe_world new_disk =
      (Inl FileNotFoundError, logging (Processing ''film.mkv'') new_disk)"
  proof -
    have f: "API_KEY no_ffprobe_world = Some ''key''" "\<not> name_is_main no_ffprobe_world"
      "video_arg no_ffprobe_world = ''/m/film.mkv''"
      by (simp_all add: no_ffprobe_world_def quiet_world_def)
    have e: "has_external_subtitles ''/m/film.mkv'' (logging (Processing ''film.mkv'') new_disk) =
        (False, logging (Processing ''film.mkv'') new_disk)"
      by (intro ext_none) (simp_all add: isfile_def logging_def new_disk_def splitext_film)
    have v: "isfile new_disk ''/m/film.mkv''" by (simp add: isfile_def new_disk_def)
    show ?thesis by (simp add: main_body_def f a e v Let_def film_paths)
  qed
  have c: "fst (has_embedded_subtitles (quiet_world\<lparr>probe := (\<lambda>p. Inl FfmpegError)\<rparr>) ''/m/film.mkv'' new_disk)
     = Inr False"
    by (simp add: has_embedded_subtitles_def embedded_try_def)
  from a b c show ?thesis by simp
qed

text \<open>
  Claim C9 on the module as it is written: run as a script without the API key, or on a
  missing video file, the module only defines \<open>setup_logging\<close> and ends with exit status
  0, where \<open>main\<close>, had it been called, exits with status 1. Inside the script, a call
  of \<open>main\<close> would never get past its first statement.
\<close>

theorem C9_script_never_runs_main:
  "run_script (quiet_world\<lparr>API_KEY := None, name_is_main := True\<rparr>) new_disk = (0, new_disk) \<and>
   run_script (quiet_world\<lparr>video_arg := ''/m/absent.mkv'', name_is_main := True\<rparr>) new_disk = (0, new_disk) \<and>
   exit_status (fst (main (Suc (Suc 0)) (quiet_world\<lparr>API_KEY := None\<rparr>) new_disk)) = 1 \<and>
   exit_status (fst (main (Suc (Suc 0)) (quiet_world\<lparr>video_arg := ''/m/absent.mkv''\<rparr>) new_disk)) = 1 \<and>
   main 1000 (quiet_world\<lparr>API_KEY := None, name_is_main := True\<rparr>) new_disk = (Inl RecursionError, new_disk)"
proof -
  have "name_is_main (quiet_world\<lparr>API_KEY := None, name_is_main := True\<rparr>)" by simp
  from main_script_recursion[OF this] show ?thesis
    by (simp add: run_script_def module_body_def main_body_def quiet_world_def isfile_def new_disk_def)
qed

section \<open>Counterexamples\<close>





end
